theory Spec2Isabelle
  imports Main "HOL-Library.FSet" "HOL-Library.AList"
begin

section \<open>The page script of the document-to-image front end\<close>

text \<open>
  The development embeds \<^verbatim>\<open>src/frontend/main.js\<close>: the module-level registries
  \<^verbatim>\<open>pollIntervals\<close> and \<^verbatim>\<open>activeBatches\<close>, the token kept in local storage, the
  part of the document the script writes to, and the functions \<^verbatim>\<open>logout\<close>,
  \<^verbatim>\<open>renderTask\<close>, \<^verbatim>\<open>pollTask\<close> and the two submit handlers' data handling.

  The script runs on one thread. An \<^verbatim>\<open>async\<close> callback is cut at its \<^verbatim>\<open>await\<close>:
  the part before the \<^verbatim>\<open>fetch\<close> is one step, the part after the response is
  another, and any other step may run in between. An error that a function throws is a
  result of it, and its callers do what their \<^verbatim>\<open>catch\<close> does.
\<close>

subsection \<open>Values\<close>

text \<open>
  A JSON field that may be \<^verbatim>\<open>null\<close> or absent is a \<open>string option\<close>. In a condition
  JavaScript takes \<^verbatim>\<open>null\<close>, \<^verbatim>\<open>undefined\<close> and the empty string for false.
\<close>

definition truthy :: "string option \<Rightarrow> bool" where
  "truthy v = (case v of None \<Rightarrow> False | Some s \<Rightarrow> s \<noteq> [])"

text \<open>The job record the service returns on submission and on every poll.\<close>

record task =
  task_id :: string
  batch_id :: "string option"
  state :: string
  detail :: "string option"
  download_url :: "string option"

subsection \<open>The document\<close>

text \<open>
  An element cloned from \<^verbatim>\<open>#task-template\<close>: its id, the heading, the texts of
  \<^verbatim>\<open>.state\<close> and \<^verbatim>\<open>.detail\<close>, and the \<^verbatim>\<open>.download\<close> link (\<open>Some url\<close> once
  \<^verbatim>\<open>setDownload\<close> has shown it and bound it to \<open>url\<close>). Elements are objects with
  identity: they live in a store and the tree refers to them.
\<close>

record task_el =
  el_id :: string
  heading :: string
  state_text :: string
  detail_text :: string
  download :: "string option"

text \<open>
  The children of a batch container: its title (the first eight characters of the batch
  identifier and the number of files), task elements, and the batch download button made
  by \<^verbatim>\<open>createBatchDownloadButton\<close>, the only element of class \<^verbatim>\<open>batch-download\<close>.
\<close>

datatype node = Title string nat | TaskEl nat | BatchBtn string

text \<open>The children of \<^verbatim>\<open>#tasks\<close>: task elements and batch containers.\<close>

datatype top = TopTask nat | TopBox nat

fun is_btn :: "node \<Rightarrow> bool" where
  "is_btn (BatchBtn b) = True"
| "is_btn (Title s n) = False"
| "is_btn (TaskEl r) = False"

text \<open>\<^verbatim>\<open>container.querySelector('.batch-download')\<close> finds an element or not.\<close>

definition has_batch_download :: "node list \<Rightarrow> bool" where
  "has_batch_download ns = list_ex is_btn ns"

subsection \<open>The registries and the state\<close>

text \<open>
  An entry of \<^verbatim>\<open>activeBatches\<close>:
  \<^verbatim>\<open>{taskIds: Set, completed: Set, container: Element}\<close>.
\<close>

record batch =
  taskIds :: "string fset"
  completed :: "string fset"
  container :: nat

text \<open>
  \<^item> \<open>token\<close>, \<open>user\<close>: the two keys of local storage;
  \<^item> \<open>loginPanelHidden\<close>, \<open>mainPanelHidden\<close>, \<open>loginErrorHidden\<close>: the \<^verbatim>\<open>hidden\<close>
    attributes the script sets;
  \<^item> \<open>tasksContainer\<close>: the children of \<^verbatim>\<open>#tasks\<close>, first child first;
  \<^item> \<open>els\<close>, \<open>boxes\<close>: the stores of task elements and of batch containers (the children
    of each), with the next free reference of each;
  \<^item> \<open>pollIntervals\<close>: the Map from task identifier to interval handle, in insertion
    order;
  \<^item> \<open>activeBatches\<close>: the Map from batch identifier to batch entry;
  \<^item> \<open>timers\<close>: the intervals of the runtime that \<^verbatim>\<open>setInterval\<close> started and
    \<^verbatim>\<open>clearInterval\<close> has not stopped, each with the task identifier of its callback;
  \<^item> \<open>inflight\<close>: the status requests sent and not yet answered, oldest first, each
    with the task identifier and the interval handle its callback holds;
  \<^item> \<open>alerts\<close>: the messages shown by \<^verbatim>\<open>alert\<close>, oldest first;
  \<^item> \<open>logged\<close>: the number of calls of \<^verbatim>\<open>console.error\<close>.
\<close>

record app =
  token :: "string option"
  user :: "string option"
  loginPanelHidden :: bool
  mainPanelHidden :: bool
  loginErrorHidden :: bool
  tasksContainer :: "top list"
  els :: "nat \<Rightarrow> task_el"
  next_el :: nat
  boxes :: "nat \<Rightarrow> node list"
  next_box :: nat
  pollIntervals :: "(string \<times> nat) list"
  activeBatches :: "string \<rightharpoonup> batch"
  timers :: "(nat \<times> string) list"
  next_timer :: nat
  inflight :: "(string \<times> nat) list"
  alerts :: "string list"
  logged :: nat

text \<open>
  The task elements of the document by id: the first element with the id in document
  order, among the children of \<^verbatim>\<open>#tasks\<close> and of the batch containers attached there.
\<close>

fun find_task :: "(nat \<Rightarrow> task_el) \<Rightarrow> string \<Rightarrow> node list \<Rightarrow> nat option" where
  "find_task E i [] = None"
| "find_task E i (TaskEl r # ns) = (if el_id (E r) = i then Some r else find_task E i ns)"
| "find_task E i (Title s n # ns) = find_task E i ns"
| "find_task E i (BatchBtn b # ns) = find_task E i ns"

fun find_top :: "(nat \<Rightarrow> task_el) \<Rightarrow> (nat \<Rightarrow> node list) \<Rightarrow> string \<Rightarrow> top list \<Rightarrow> nat option" where
  "find_top E B i [] = None"
| "find_top E B i (TopTask r # ts) = (if el_id (E r) = i then Some r else find_top E B i ts)"
| "find_top E B i (TopBox c # ts) =
     (case find_task E i (B c) of Some r \<Rightarrow> Some r | None \<Rightarrow> find_top E B i ts)"

text \<open>
  What \<^verbatim>\<open>document.getElementById\<close> gives \<^verbatim>\<open>renderTask\<close>: a task element, or the static
  \<^verbatim>\<open><template id="task-template">\<close> of the page, which the script itself looks up under
  that id and clones. Of the ids the script uses for static elements, \<^verbatim>\<open>task-template\<close>
  is the only one that begins with \<^verbatim>\<open>task-\<close>. No task element gets that id, since one is
  made only when the lookup finds nothing; the template is what the lookup finds for it.
\<close>

datatype found = Template | TaskElement nat

definition getElementById :: "string \<Rightarrow> app \<Rightarrow> found option" where
  "getElementById i st =
     (if i = ''task-template'' then Some Template
      else map_option TaskElement (find_top (els st) (boxes st) i (tasksContainer st)))"

text \<open>The id of the element of a task: the template string \<^verbatim>\<open>task-${task.task_id}\<close>.\<close>

definition task_el_id :: "string \<Rightarrow> string" where
  "task_el_id i = ''task-'' @ i"

subsection \<open>Session\<close>

definition showLoginPanel :: "app \<Rightarrow> app" where
  "showLoginPanel st =
     st\<lparr>loginPanelHidden := False, mainPanelHidden := True, loginErrorHidden := True\<rparr>"

definition clearInterval :: "nat \<Rightarrow> app \<Rightarrow> app" where
  "clearInterval iv st = st\<lparr>timers := AList.delete iv (timers st)\<rparr>"

text \<open>
  \<^verbatim>\<open>logout\<close>: removes token and user, shows the login panel, empties \<^verbatim>\<open>#tasks\<close>,
  stops every interval of \<^verbatim>\<open>pollIntervals\<close> and clears that Map. Emptying \<^verbatim>\<open>#tasks\<close>
  detaches its children; a detached batch container keeps its own children.
\<close>

definition logout :: "app \<Rightarrow> app" where
  "logout st =
     (let st1 = showLoginPanel (st\<lparr>token := None, user := None\<rparr>);
          st2 = st1\<lparr>tasksContainer := []\<rparr>;
          st3 = fold (\<lambda>(k, iv). clearInterval iv) (pollIntervals st2) st2
      in st3\<lparr>pollIntervals := []\<rparr>)"

definition alert :: "string \<Rightarrow> app \<Rightarrow> app" where
  "alert msg st = st\<lparr>alerts := alerts st @ [msg]\<rparr>"

subsection \<open>Rendering a job record\<close>

definition setState :: "nat \<Rightarrow> string \<Rightarrow> app \<Rightarrow> app" where
  "setState r s st = st\<lparr>els := (els st)(r := (els st r)\<lparr>state_text := s\<rparr>)\<rparr>"

definition setStatusMessage :: "nat \<Rightarrow> string option \<Rightarrow> app \<Rightarrow> app" where
  "setStatusMessage r m st =
     st\<lparr>els := (els st)(r := (els st r)\<lparr>detail_text := (if truthy m then the m else [])\<rparr>)\<rparr>"

definition setDownload :: "nat \<Rightarrow> string option \<Rightarrow> app \<Rightarrow> app" where
  "setDownload r url st =
     st\<lparr>els := (els st)(r := (els st r)\<lparr>download := (if truthy url then url else None)\<rparr>)\<rparr>"

text \<open>
  The entry of \<^verbatim>\<open>activeBatches\<close> for the record's batch:
  \<^verbatim>\<open>task.batch_id && activeBatches.get(task.batch_id)\<close>.
\<close>

definition batch_of :: "task \<Rightarrow> app \<Rightarrow> batch option" where
  "batch_of t st =
     (case batch_id t of None \<Rightarrow> None
      | Some b \<Rightarrow> if b = [] then None else activeBatches st b)"

text \<open>
  The first part of \<^verbatim>\<open>renderTask\<close>: the element \<^verbatim>\<open>taskEl\<close>, looked up in the document
  by its id, or cloned from the template and put at the end of the container of the task's
  batch when that batch is registered, at the front of \<^verbatim>\<open>#tasks\<close> otherwise.
\<close>

definition task_element :: "task \<Rightarrow> app \<Rightarrow> found \<times> app" where
  "task_element t st =
     (case getElementById (task_el_id (task_id t)) st of
        Some f \<Rightarrow> (f, st)
      | None \<Rightarrow>
          (let r = next_el st;
               st1 = st\<lparr>els := (els st)(r := \<lparr>el_id = task_el_id (task_id t), heading = task_id t,
                                               state_text = [], detail_text = [], download = None\<rparr>),
                        next_el := Suc r\<rparr>
           in case batch_of t st1 of
                Some b \<Rightarrow>
                  (TaskElement r,
                   st1\<lparr>boxes := (boxes st1)(container b := boxes st1 (container b) @ [TaskEl r])\<rparr>)
              | None \<Rightarrow>
                  (TaskElement r, st1\<lparr>tasksContainer := TopTask r # tasksContainer st1\<rparr>)))"

text \<open>
  The last part of \<^verbatim>\<open>renderTask\<close>, the batch tracking: a completed record with a batch
  identifier that is registered has its task identifier added to the batch's completed
  set; the download button is put at the front of the batch's container when the two sets
  have the same size and the container holds no such button yet.
\<close>

definition track_batch :: "task \<Rightarrow> app \<Rightarrow> app" where
  "track_batch t st =
     (if truthy (batch_id t) \<and> state t = ''completed'' then
        (case batch_of t st of
           None \<Rightarrow> st
         | Some b \<Rightarrow>
             (let b' = b\<lparr>completed := finsert (task_id t) (completed b)\<rparr>;
                  st1 = st\<lparr>activeBatches := (activeBatches st)(the (batch_id t) \<mapsto> b')\<rparr>
              in if fcard (completed b') = fcard (taskIds b')
                    \<and> \<not> has_batch_download (boxes st1 (container b'))
                 then st1\<lparr>boxes := (boxes st1)(container b' :=
                            BatchBtn (the (batch_id t)) # boxes st1 (container b'))\<rparr>
                 else st1))
      else st)"

text \<open>
  \<^verbatim>\<open>renderTask\<close>. When \<^verbatim>\<open>taskEl\<close> is the template, \<^verbatim>\<open>setState\<close> throws: the children
  of a template are in its content fragment, \<^verbatim>\<open>taskEl.querySelector('.state')\<close> is
  \<^verbatim>\<open>null\<close> and the assignment to its \<^verbatim>\<open>textContent\<close> is a TypeError. Nothing was
  written before it.
\<close>

datatype error = TypeError

definition renderTask :: "task \<Rightarrow> app \<Rightarrow> error + app" where
  "renderTask t st =
     (case task_element t st of
        (Template, st1) \<Rightarrow> Inl TypeError
      | (TaskElement r, st1) \<Rightarrow>
          (let st2 = setState r (state t) st1;
               st3 = setStatusMessage r (detail t) st2;
               st4 = (if truthy (download_url t) then setDownload r (download_url t) st3
                      else st3)
           in Inr (track_batch t st4)))"

text \<open>
  The \<^verbatim>\<open>message\<close> of a caught error, which the submit handler alerts. The engine words
  it.
\<close>

fun message :: "error \<Rightarrow> string" where
  "message TypeError = ''Cannot set properties of null''"

subsection \<open>Polling\<close>

text \<open>
  \<^verbatim>\<open>pollTask\<close>: nothing when the task identifier has an entry in \<^verbatim>\<open>pollIntervals\<close>;
  otherwise \<^verbatim>\<open>setInterval\<close> starts an interval with a new handle and the Map records it.
\<close>

definition pollTask :: "string \<Rightarrow> app \<Rightarrow> app" where
  "pollTask taskId st =
     (if map_of (pollIntervals st) taskId \<noteq> None then st
      else (let iv = next_timer st
            in st\<lparr>timers := timers st @ [(iv, taskId)], next_timer := Suc iv,
                  pollIntervals := AList.update taskId iv (pollIntervals st)\<rparr>))"

text \<open>\<^verbatim>\<open>clearInterval(interval); pollIntervals.delete(taskId)\<close>, as the callback does.\<close>

definition stop_poll :: "string \<Rightarrow> nat \<Rightarrow> app \<Rightarrow> app" where
  "stop_poll taskId iv st =
     (clearInterval iv st)\<lparr>pollIntervals := AList.delete taskId (pollIntervals st)\<rparr>"

text \<open>
  An interval fires (a stopped one never does): the callback up to its \<^verbatim>\<open>await\<close>.
  Without a token it stops its own subscription; with one it sends the status request.
\<close>

definition tick :: "nat \<Rightarrow> app \<Rightarrow> app" where
  "tick iv st =
     (case map_of (timers st) iv of
        None \<Rightarrow> st
      | Some taskId \<Rightarrow>
          if \<not> truthy (token st) then stop_poll taskId iv st
          else st\<lparr>inflight := inflight st @ [(taskId, iv)]\<rparr>)"

text \<open>
  What a status request comes back with: status 401, a job record, or anything else (a
  status that is not ok, a network error, a body that is not JSON), which throws.
\<close>

datatype response = Unauthorized | Ok task | Failure

text \<open>
  The callback after its \<^verbatim>\<open>await\<close>, for the request of \<open>taskId\<close> sent by interval \<open>iv\<close>.
  It runs in a \<^verbatim>\<open>try\<close>: an error thrown by \<^verbatim>\<open>renderTask\<close> is caught and logged like any
  other, and the rest of the callback is skipped.
\<close>

fun on_response :: "string \<Rightarrow> nat \<Rightarrow> response \<Rightarrow> app \<Rightarrow> app" where
  "on_response taskId iv Unauthorized st =
     alert ''Session expired. Please log in again.'' (stop_poll taskId iv (logout st))"
| "on_response taskId iv (Ok d) st =
     (case renderTask d st of
        Inl e \<Rightarrow> st\<lparr>logged := Suc (logged st)\<rparr>
      | Inr st1 \<Rightarrow>
          if state d = ''completed'' \<or> state d = ''failed'' then stop_poll taskId iv st1
          else st1)"
| "on_response taskId iv Failure st = st\<lparr>logged := Suc (logged st)\<rparr>"

subsection \<open>Submission\<close>

text \<open>
  The submit handler on a response that is an array: when the first record has a batch
  identifier, a new container with its title goes to the front of \<^verbatim>\<open>#tasks\<close> and
  \<^verbatim>\<open>activeBatches.set\<close> stores a new entry under that identifier.
\<close>

definition registerBatch :: "task list \<Rightarrow> app \<Rightarrow> app" where
  "registerBatch tasks st =
     (case tasks of
        [] \<Rightarrow> st
      | t0 # rest \<Rightarrow>
          if truthy (batch_id t0) then
            (let batchId = the (batch_id t0); c = next_box st
             in st\<lparr>boxes := (boxes st)(c := [Title (take 8 batchId) (length tasks)]),
                   next_box := Suc c,
                   tasksContainer := TopBox c # tasksContainer st,
                   activeBatches := (activeBatches st)(batchId \<mapsto>
                     \<lparr>taskIds = fset_of_list (map task_id tasks), completed = {||},
                      container = c\<rparr>)\<rparr>)
          else st)"

text \<open>
  \<^verbatim>\<open>tasks.forEach\<close> of the handler: each record is rendered and polled. The handler runs
  in a \<^verbatim>\<open>try\<close>: an error thrown by \<^verbatim>\<open>renderTask\<close> ends the loop and its message is
  alerted.
\<close>

fun render_and_poll :: "task list \<Rightarrow> app \<Rightarrow> app" where
  "render_and_poll [] st = st"
| "render_and_poll (t # ts) st =
     (case renderTask t st of
        Inl e \<Rightarrow> alert (message e) st
      | Inr st1 \<Rightarrow> render_and_poll ts (pollTask (task_id t) st1))"

datatype submitted = Many "task list" | One task

fun on_submitted :: "submitted \<Rightarrow> app \<Rightarrow> app" where
  "on_submitted (Many tasks) st = render_and_poll tasks (registerBatch tasks st)"
| "on_submitted (One t) st = render_and_poll [t] st"

text \<open>
  The form data of the submit handler: entries in order, a value being a string or a
  file. \<^verbatim>\<open>get\<close> gives the first value of a name, \<^verbatim>\<open>delete\<close> removes every entry of it.
\<close>

datatype fd_value = Str string | File string

definition fd_get :: "string \<Rightarrow> (string \<times> fd_value) list \<Rightarrow> fd_value option" where
  "fd_get n fd = map_of fd n"

definition fd_delete :: "string \<Rightarrow> (string \<times> fd_value) list \<Rightarrow> (string \<times> fd_value) list" where
  "fd_delete n fd = filter (\<lambda>(k, v). k \<noteq> n) fd"

definition fd_has :: "string \<Rightarrow> (string \<times> fd_value) list \<Rightarrow> bool" where
  "fd_has n fd = (map_of fd n \<noteq> None)"

definition background_fields :: "(string \<times> fd_value) list \<Rightarrow> (string \<times> fd_value) list" where
  "background_fields formData =
     (let bgType = fd_get ''background_type'' formData;
          fd1 = (if bgType \<noteq> Some (Str ''color'')
                 then fd_delete ''background_color'' formData else formData);
          fd2 = (if bgType \<noteq> Some (Str ''image'')
                 then fd_delete ''background_image'' fd1 else fd1)
      in fd2)"

subsection \<open>The page as loaded\<close>

definition init :: app where
  "init = \<lparr>token = None, user = None, loginPanelHidden = False, mainPanelHidden = True,
           loginErrorHidden = True, tasksContainer = [],
           els = (\<lambda>r. \<lparr>el_id = [], heading = [], state_text = [], detail_text = [],
                        download = None\<rparr>),
           next_el = 0, boxes = (\<lambda>c. []), next_box = 0, pollIntervals = [],
           activeBatches = Map.empty, timers = [], next_timer = 0, inflight = [],
           alerts = [], logged = 0\<rparr>"

text \<open>A successful login stores the token and the user.\<close>

definition logged_in :: "string \<Rightarrow> string \<Rightarrow> app \<Rightarrow> app" where
  "logged_in jwt u st =
     st\<lparr>token := Some jwt, user := Some u, loginPanelHidden := True, mainPanelHidden := False\<rparr>"

subsection \<open>Steps of the page\<close>

text \<open>
  The request at position \<open>i\<close> of those in flight is answered: it leaves the list and its
  callback continues. Nothing the script does takes a request out of flight otherwise.
\<close>

definition respond :: "nat \<Rightarrow> response \<Rightarrow> app \<Rightarrow> app" where
  "respond i r st =
     (if i < length (inflight st) then
        (case inflight st ! i of
           (taskId, iv) \<Rightarrow>
             on_response taskId iv r
               (st\<lparr>inflight := take i (inflight st) @ drop (Suc i) (inflight st)\<rparr>))
      else st)"

text \<open>
  What happens on the page: a login succeeds, a submission is answered with job records,
  an interval fires, a status request is answered, the user logs out.
\<close>

datatype event =
    Login string string
  | Submitted submitted
  | Tick nat
  | Respond nat response
  | Logout

fun step :: "event \<Rightarrow> app \<Rightarrow> app" where
  "step (Login jwt u) st = logged_in jwt u st"
| "step (Submitted s) st = on_submitted s st"
| "step (Tick iv) st = tick iv st"
| "step (Respond i r) st = respond i r st"
| "step Logout st = logout st"

definition run :: "event list \<Rightarrow> app \<Rightarrow> app" where
  "run es st = fold step es st"

subsection \<open>Reading the state\<close>

text \<open>The member set and the completed set of a batch, empty when it is not registered.\<close>

definition members_of :: "string \<Rightarrow> app \<Rightarrow> string fset" where
  "members_of b st = (case activeBatches st b of None \<Rightarrow> {||} | Some B \<Rightarrow> taskIds B)"

definition completed_of :: "string \<Rightarrow> app \<Rightarrow> string fset" where
  "completed_of b st = (case activeBatches st b of None \<Rightarrow> {||} | Some B \<Rightarrow> completed B)"

text \<open>The number of batch download buttons in the container of batch \<open>b\<close>.\<close>

definition buttons :: "string \<Rightarrow> app \<Rightarrow> nat" where
  "buttons b st =
     (case activeBatches st b of None \<Rightarrow> 0
      | Some B \<Rightarrow> length (filter is_btn (boxes st (container B))))"

text \<open>
  The state and the detail the document shows for a task: the texts of the task element
  that \<^verbatim>\<open>getElementById\<close> finds for it. The script keeps no other record of a job.
\<close>

definition shown_state :: "string \<Rightarrow> app \<Rightarrow> string option" where
  "shown_state i st =
     (case getElementById (task_el_id i) st of
        Some (TaskElement r) \<Rightarrow> Some (state_text (els st r))
      | Some Template \<Rightarrow> None
      | None \<Rightarrow> None)"

definition shown_detail :: "string \<Rightarrow> app \<Rightarrow> string option" where
  "shown_detail i st =
     (case getElementById (task_el_id i) st of
        Some (TaskElement r) \<Rightarrow> Some (detail_text (els st r))
      | Some Template \<Rightarrow> None
      | None \<Rightarrow> None)"

text \<open>
  The state after a call of \<^verbatim>\<open>renderTask\<close>, whether it returned or threw: a call that
  throws has written nothing.
\<close>

definition rendered :: "task \<Rightarrow> app \<Rightarrow> app" where
  "rendered t st = (case renderTask t st of Inl e \<Rightarrow> st | Inr st1 \<Rightarrow> st1)"

text \<open>What \<open>renderTask\<close> reads and writes: the document and the batch registry.\<close>

definition page :: "app \<Rightarrow> top list \<times> (nat \<Rightarrow> task_el) \<times> nat \<times> (nat \<Rightarrow> node list) \<times> (string \<rightharpoonup> batch)" where
  "page st = (tasksContainer st, els st, next_el st, boxes st, activeBatches st)"

text \<open>
  The number of running intervals that poll a task, and of entries of \<open>pollIntervals\<close>
  for it.
\<close>

definition active_checks :: "string \<Rightarrow> app \<Rightarrow> nat" where
  "active_checks taskId st = length (filter (\<lambda>(iv, k). k = taskId) (timers st))"

definition entries :: "string \<Rightarrow> app \<Rightarrow> nat" where
  "entries taskId st = length (filter (\<lambda>(k, iv). k = taskId) (pollIntervals st))"

text \<open>The text of the alert of a status 401.\<close>

definition session_expired :: string where
  "session_expired = ''Session expired. Please log in again.''"

subsection \<open>Observing the batch tracking\<close>

text \<open>The writes of \<^verbatim>\<open>renderTask\<close> to the element \<open>r\<close> of the task.\<close>

definition set_texts :: "nat \<Rightarrow> task \<Rightarrow> app \<Rightarrow> app" where
  "set_texts r t st =
     (let st2 = setState r (state t) st;
          st3 = setStatusMessage r (detail t) st2
      in (if truthy (download_url t) then setDownload r (download_url t) st3 else st3))"

text \<open>
  The part of \<^verbatim>\<open>renderTask\<close> before the batch tracking, for a record that has a task
  element.
\<close>

definition shown :: "task \<Rightarrow> app \<Rightarrow> app" where
  "shown t st =
     (case task_element t st of
        (Template, st1) \<Rightarrow> st1
      | (TaskElement r, st1) \<Rightarrow> set_texts r t st1)"

text \<open>A job record that \<open>track_batch\<close> adds to the completed set of batch \<open>b\<close>.\<close>

definition tracks :: "string \<Rightarrow> task \<Rightarrow> bool" where
  "tracks b t = (batch_id t = Some b \<and> b \<noteq> [] \<and> state t = ''completed'')"

text \<open>
  A job record that \<^verbatim>\<open>renderTask\<close> counts for batch \<open>b\<close>: a completed record that carries
  \<open>b\<close> and whose rendering reaches the tracking, which it does unless it throws, the
  record's element id being the template's.
\<close>

definition counted :: "string \<Rightarrow> task \<Rightarrow> bool" where
  "counted b t = (tracks b t \<and> task_id t \<noteq> ''template'')"

text \<open>The task identifiers of the records of a sequence that are counted for \<open>b\<close>.\<close>

definition done_ids :: "string \<Rightarrow> task list \<Rightarrow> string fset" where
  "done_ids b ts = fset_of_list (map task_id (filter (counted b) ts))"

text \<open>Job records rendered one after the other, in their order of arrival.\<close>

definition render_all :: "task list \<Rightarrow> app \<Rightarrow> app" where
  "render_all ts st = fold rendered ts st"

text \<open>
  For each record of a sequence rendered from \<open>st\<close>, whether rendering it put a download
  button into the container of batch \<open>b\<close>.
\<close>

fun offers :: "string \<Rightarrow> task list \<Rightarrow> app \<Rightarrow> bool list" where
  "offers b [] st = []"
| "offers b (t # ts) st =
     (buttons b st < buttons b (rendered t st)) # offers b ts (rendered t st)"

text \<open>No other batch entry refers to the container of batch \<open>b\<close>.\<close>

definition own_container :: "string \<Rightarrow> app \<Rightarrow> bool" where
  "own_container b st =
     (\<forall>b' B B'. activeBatches st b = Some B \<and> activeBatches st b' = Some B' \<and> b' \<noteq> b
        \<longrightarrow> container B' \<noteq> container B)"

text \<open>
  Every container of a batch entry was made before the next one will be, so that a newly
  made container is the container of no entry.
\<close>

definition boxes_fresh :: "app \<Rightarrow> bool" where
  "boxes_fresh st = (\<forall>b B. activeBatches st b = Some B \<longrightarrow> container B < next_box st)"

text \<open>
  The invariant of the tracking of batch \<open>b\<close> with members \<open>M\<close> and completed set \<open>C\<close>:
  the completed set is within the members and the container holds one button when the two
  are equal, none otherwise.
\<close>

definition tracked :: "string \<Rightarrow> string fset \<Rightarrow> string fset \<Rightarrow> app \<Rightarrow> bool" where
  "tracked b M C st =
     (own_container b st \<and> C |\<subseteq>| M \<and>
      (\<exists>B. activeBatches st b = Some B \<and> taskIds B = M \<and> completed B = C
           \<and> length (filter is_btn (boxes st (container B))) = (if C = M then 1 else 0)))"

subsection \<open>Sample inputs\<close>

text \<open>A job record without detail and download reference.\<close>

definition job :: "string \<Rightarrow> string option \<Rightarrow> string \<Rightarrow> task" where
  "job i b s = \<lparr>task_id = i, batch_id = b, state = s, detail = None, download_url = None\<rparr>"

text \<open>Three documents submitted together, and records of them as polls return them.\<close>

definition abc :: "task list" where
  "abc = [job ''A'' (Some ''b1'') ''queued'', job ''B'' (Some ''b1'') ''queued'',
          job ''C'' (Some ''b1'') ''queued'']"

definition arrivals :: "task list" where
  "arrivals = [job ''C'' (Some ''b1'') ''completed'', job ''A'' (Some ''b1'') ''processing'',
               job ''A'' (Some ''b1'') ''completed'', job ''C'' (Some ''b1'') ''completed'',
               job ''B'' (Some ''b1'') ''completed'', job ''A'' (Some ''b1'') ''completed'']"

text \<open>A form with every background field filled in, for the selected option \<open>bg\<close>.\<close>

definition form_with :: "string \<Rightarrow> (string \<times> fd_value) list" where
  "form_with bg = [(''files'', File ''a.pdf''), (''background_type'', Str bg),
                   (''background_color'', Str ''#ffffff''), (''background_image'', File ''bg.png'')]"

text \<open>The page after a record of job \<open>F\<close> in state \<^verbatim>\<open>completed\<close> was rendered.\<close>

definition f_done :: app where
  "f_done = rendered (job ''F'' None ''completed'') init"

text \<open>
  The page of a logged-in user after the three documents of batch \<open>b1\<close> were submitted,
  and after two documents \<open>D\<close> and \<open>E\<close> were, in a response without batch identifier.
\<close>

definition polling_abc :: app where
  "polling_abc = run [Login ''jwt'' ''u'', Submitted (Many abc)] init"

definition polling_de :: app where
  "polling_de = run [Login ''jwt'' ''u'',
                     Submitted (Many [job ''D'' None ''queued'', job ''E'' None ''queued''])] init"

text \<open>The page that polls \<open>D\<close> and \<open>E\<close>, with the status request of each in flight.\<close>

definition both_in_flight :: app where
  "both_in_flight = run [Tick 0, Tick 1] polling_de"

text \<open>
  The page of a logged-in user after one document, job \<open>F\<close> of batch \<open>b2\<close>, was
  submitted and its interval fired twice before any answer came.
\<close>

definition f_twice :: app where
  "f_twice = run [Login ''jwt'' ''u'', Submitted (Many [job ''F'' (Some ''b2'') ''queued'']),
                  Tick 0, Tick 0] init"



text \<open>The page after the one document \<open>A\<close> of batch \<open>b3\<close> was registered.\<close>

definition only_a :: app where
  "only_a = registerBatch [job ''A'' (Some ''b3'') ''queued''] init"

text \<open>
  Job \<open>F\<close> is submitted and its interval fires twice; the first answer says \<open>F\<close> has
  failed and stops the subscription. The service then hands out the identifier \<open>F\<close> again,
  a second subscription starts, and the answer to the request still in flight arrives.
\<close>

definition orphaned :: app where
  "orphaned = run [Login ''jwt'' ''u'', Submitted (One (job ''F'' None ''queued'')),
                   Tick 0, Tick 0, Respond 0 (Ok (job ''F'' None ''failed'')),
                   Submitted (One (job ''F'' None ''queued'')),
                   Respond 0 (Ok (job ''F'' None ''failed''))] init"

section \<open>The background fields of a submission\<close>

lemma fd_has_delete: "fd_has n (fd_delete m fd) = (fd_has n fd \<and> n \<noteq> m)"
  unfolding fd_has_def fd_delete_def
  by (induction fd) auto

text \<open>
  C9. The form data sent never carries both \<^verbatim>\<open>background_color\<close> and
  \<^verbatim>\<open>background_image\<close>: with the option \<^verbatim>\<open>color\<close> the image is left out, with
  \<^verbatim>\<open>image\<close> the colour is left out, with \<^verbatim>\<open>none\<close> both are.
\<close>

theorem background_at_most_one:
  "\<not> (fd_has ''background_color'' (background_fields fd)
       \<and> fd_has ''background_image'' (background_fields fd))
   \<and> (fd_get ''background_type'' fd = Some (Str ''color'')
        \<longrightarrow> \<not> fd_has ''background_image'' (background_fields fd))
   \<and> (fd_get ''background_type'' fd = Some (Str ''image'')
        \<longrightarrow> \<not> fd_has ''background_color'' (background_fields fd))
   \<and> (fd_get ''background_type'' fd = Some (Str ''none'')
        \<longrightarrow> \<not> fd_has ''background_color'' (background_fields fd)
            \<and> \<not> fd_has ''background_image'' (background_fields fd))"
  by (simp add: background_fields_def Let_def fd_has_delete)

theorem background_at_most_one_witness:
  "fd_get ''background_type'' (form_with ''color'') = Some (Str ''color'')
   \<and> \<not> fd_has ''background_image'' (background_fields (form_with ''color''))
   \<and> fd_get ''background_type'' (form_with ''image'') = Some (Str ''image'')
   \<and> \<not> fd_has ''background_color'' (background_fields (form_with ''image''))
   \<and> fd_get ''background_type'' (form_with ''none'') = Some (Str ''none'')
   \<and> \<not> fd_has ''background_color'' (background_fields (form_with ''none''))
   \<and> \<not> fd_has ''background_image'' (background_fields (form_with ''none''))"
  using background_at_most_one [of "form_with ''color''"]
        background_at_most_one [of "form_with ''image''"]
        background_at_most_one [of "form_with ''none''"]
  by (simp add: form_with_def fd_get_def)

section \<open>Rendering returns or throws\<close>

lemma task_el_id_template: "(task_el_id i = ''task-template'') = (i = ''template'')"
  by (simp add: task_el_id_def)

lemma task_element_template:
  "task_id t = ''template'' \<Longrightarrow> task_element t st = (Template, st)"
  by (simp add: task_element_def getElementById_def task_el_id_template)

lemma task_element_task:
  assumes "task_id t \<noteq> ''template''"
  shows "\<exists>r. fst (task_element t st) = TaskElement r"
  using assms
  by (auto simp: task_element_def getElementById_def task_el_id_template Let_def
      split: option.splits)

lemma shown_set_texts:
  "fst (task_element t st) = TaskElement r \<Longrightarrow> shown t st = set_texts r t (snd (task_element t st))"
  by (cases "task_element t st") (simp add: shown_def)

lemma renderTask_throws: "task_id t = ''template'' \<Longrightarrow> renderTask t st = Inl TypeError"
  by (simp add: renderTask_def task_element_template)

lemma renderTask_returns:
  assumes "task_id t \<noteq> ''template''"
  shows "renderTask t st = Inr (track_batch t (shown t st))"
proof -
  from task_element_task [OF assms, of st] obtain r where "fst (task_element t st) = TaskElement r"
    by blast
  then obtain s where "task_element t st = (TaskElement r, s)"
    by (cases "task_element t st") simp
  then show ?thesis
    by (simp add: renderTask_def shown_def set_texts_def Let_def)
qed

lemma rendered_throws: "task_id t = ''template'' \<Longrightarrow> rendered t st = st"
  by (simp add: rendered_def renderTask_throws)

lemma rendered_shown: "task_id t \<noteq> ''template'' \<Longrightarrow> rendered t st = track_batch t (shown t st)"
  by (simp add: rendered_def renderTask_returns)

section \<open>Batch completion\<close>

lemma has_batch_download_filter: "has_batch_download ns = (filter is_btn ns \<noteq> [])"
  by (induction ns) (auto simp: has_batch_download_def)

lemma task_element_batches: "activeBatches (snd (task_element t st)) = activeBatches st"
  by (simp add: task_element_def Let_def split: option.splits)

lemma task_element_btns:
  "filter is_btn (boxes (snd (task_element t st)) c) = filter is_btn (boxes st c)"
  by (simp add: task_element_def Let_def split: option.splits)

lemma set_texts_same:
  "tasksContainer (set_texts r t st) = tasksContainer st"
  "boxes (set_texts r t st) = boxes st"
  "activeBatches (set_texts r t st) = activeBatches st"
  "el_id (els (set_texts r t st) q) = el_id (els st q)"
  "state_text (els (set_texts r t st) r) = state t"
  "detail_text (els (set_texts r t st) r) = (if truthy (detail t) then the (detail t) else [])"
  "next_box (set_texts r t st) = next_box st"
  "pollIntervals (set_texts r t st) = pollIntervals st"
  "alerts (set_texts r t st) = alerts st"
  "logged (set_texts r t st) = logged st"
  by (simp_all add: set_texts_def Let_def setState_def setStatusMessage_def setDownload_def)

lemma shown_snd:
  assumes "\<And>r s. f (set_texts r t s) = f s"
  shows "f (shown t st) = f (snd (task_element t st))"
proof (cases "task_element t st")
  case (Pair e s)
  then show ?thesis by (cases e) (simp_all add: shown_def assms)
qed

lemma shown_batches: "activeBatches (shown t st) = activeBatches st"
  by (simp add: shown_snd [of activeBatches] set_texts_same task_element_batches)

lemma shown_btns: "filter is_btn (boxes (shown t st) c) = filter is_btn (boxes st c)"
  by (simp add: shown_snd [of "\<lambda>s. filter is_btn (boxes s c)"] set_texts_same task_element_btns)

lemma batch_of_tracks:
  "activeBatches st b = Some B \<Longrightarrow> tracks b t \<Longrightarrow> batch_of t st = Some B"
  by (simp add: batch_of_def tracks_def)

lemma track_counted:
  assumes "activeBatches st b = Some B" and "tracks b t"
  shows "activeBatches (track_batch t st) b
           = Some (B\<lparr>completed := finsert (task_id t) (completed B)\<rparr>)"
    and "filter is_btn (boxes (track_batch t st) (container B))
           = (if fcard (finsert (task_id t) (completed B)) = fcard (taskIds B)
                 \<and> filter is_btn (boxes st (container B)) = []
              then BatchBtn b # filter is_btn (boxes st (container B))
              else filter is_btn (boxes st (container B)))"
  using assms batch_of_tracks [OF assms]
  by (simp_all add: track_batch_def tracks_def truthy_def Let_def has_batch_download_filter)

lemma track_uncounted:
  assumes "activeBatches st b = Some B" and "\<not> tracks b t"
  shows "activeBatches (track_batch t st) b = Some B"
  using assms
  by (auto simp: track_batch_def tracks_def truthy_def batch_of_def Let_def
      split: option.splits)

lemma track_other:
  assumes "activeBatches st b = Some B" and "\<not> tracks b t" and "own_container b st"
  shows "filter is_btn (boxes (track_batch t st) (container B))
           = filter is_btn (boxes st (container B))"
proof (cases "batch_of t st")
  case None
  then show ?thesis by (simp add: track_batch_def)
next
  case (Some B')
  show ?thesis
  proof (cases "truthy (batch_id t) \<and> state t = ''completed''")
    case False
    then show ?thesis by (auto simp: track_batch_def)
  next
    case True
    then obtain b' where b': "batch_id t = Some b'" "b' \<noteq> []"
      by (auto simp: truthy_def split: option.splits)
    with Some have reg: "activeBatches st b' = Some B'"
      by (simp add: batch_of_def)
    from b' True assms(2) have "b' \<noteq> b"
      by (auto simp: tracks_def)
    with assms(1,3) reg have "container B' \<noteq> container B"
      unfolding own_container_def by blast
    with True Some show ?thesis
      by (simp add: track_batch_def Let_def)
  qed
qed

lemma track_own_container: "own_container b st \<Longrightarrow> own_container b (track_batch t st)"
  unfolding own_container_def
  by (auto simp: track_batch_def truthy_def batch_of_def Let_def
        split: option.splits if_splits)

lemma own_container_shown: "own_container b (shown t st) = own_container b st"
  by (simp add: own_container_def shown_batches)

lemma fcard_eq_iff: "C |\<subseteq>| M \<Longrightarrow> (fcard C = fcard M) = (C = M)"
  using fcard_seteq [of C M] by auto

lemma done_ids_Nil: "done_ids b [] = {||}"
  by (simp add: done_ids_def)

lemma done_ids_Cons:
  "done_ids b (t # ts) = (if counted b t then finsert (task_id t) (done_ids b ts) else done_ids b ts)"
  by (simp add: done_ids_def)

lemma tracked_buttons: "tracked b M C st \<Longrightarrow> buttons b st = (if C = M then 1 else 0)"
  by (clarsimp simp: tracked_def buttons_def)

lemma tracked_step:
  assumes tr: "tracked b M C st" and mem: "counted b t \<longrightarrow> task_id t |\<in>| M"
  shows "tracked b M (C |\<union>| done_ids b [t]) (rendered t st)"
proof (cases "task_id t = ''template''")
  case True
  with tr show ?thesis
    by (simp add: rendered_throws done_ids_Cons done_ids_Nil counted_def)
next
  case ok: False
  then have cnt: "counted b t = tracks b t"
    by (simp add: counted_def)
  note eq = rendered_shown [OF ok]
  from tr obtain B where B: "activeBatches st b = Some B" "taskIds B = M" "completed B = C"
      "length (filter is_btn (boxes st (container B))) = (if C = M then 1 else 0)"
    and own: "own_container b st" and sub: "C |\<subseteq>| M"
    by (auto simp: tracked_def)
  let ?s = "shown t st"
  have B': "activeBatches ?s b = Some B" using B(1) by (simp add: shown_batches)
  have own': "own_container b ?s" using own by (simp add: own_container_shown)
  have btn': "filter is_btn (boxes ?s (container B)) = filter is_btn (boxes st (container B))"
    by (rule shown_btns)
  have own'': "own_container b (rendered t st)"
    using own' by (simp add: eq track_own_container)
  show ?thesis
  proof (cases "tracks b t")
    case False
    from track_uncounted [OF B' False] track_other [OF B' False own'] B btn' sub own'' False
    show ?thesis
      by (simp add: tracked_def eq done_ids_Cons done_ids_Nil cnt)
  next
    case True
    let ?C = "finsert (task_id t) C"
    from True mem sub have sub': "?C |\<subseteq>| M" by (simp add: cnt)
    have eq': "(fcard ?C = fcard M) = (?C = M)" by (rule fcard_eq_iff [OF sub'])
    have stay: "C = M \<Longrightarrow> ?C = M" using sub' by auto
    from track_counted [OF B' True] B btn' eq' stay
    have "activeBatches (rendered t st) b = Some (B\<lparr>completed := ?C\<rparr>)"
      and "length (filter is_btn (boxes (rendered t st) (container B))) = (if ?C = M then 1 else 0)"
      by (auto simp: eq split: if_splits)
    with B sub' own'' True show ?thesis
      by (simp add: tracked_def done_ids_Cons done_ids_Nil cnt)
  qed
qed

lemma done_ids_step: "(C |\<union>| done_ids b [t]) |\<union>| done_ids b ts = C |\<union>| done_ids b (t # ts)"
  by (auto simp: done_ids_Cons done_ids_Nil)

lemma tracked_run:
  assumes "tracked b M C st" and "\<forall>t\<in>set ts. counted b t \<longrightarrow> task_id t |\<in>| M"
  shows "tracked b M (C |\<union>| done_ids b ts) (render_all ts st)"
  using assms
proof (induction ts arbitrary: st C)
  case Nil
  then show ?case by (simp add: render_all_def done_ids_Nil)
next
  case (Cons t ts)
  from Cons.prems have "tracked b M (C |\<union>| done_ids b [t]) (rendered t st)"
    by (simp add: tracked_step)
  with Cons.IH [of "C |\<union>| done_ids b [t]" "rendered t st"] Cons.prems(2)
  show ?case by (simp add: render_all_def done_ids_step)
qed

lemma offers_length: "length (offers b ts st) = length ts"
  by (induction ts arbitrary: st) auto

lemma offers_nth:
  assumes "tracked b M C st" and "\<forall>t\<in>set ts. counted b t \<longrightarrow> task_id t |\<in>| M"
    and "i < length ts"
  shows "offers b ts st ! i
           = (C |\<union>| done_ids b (take (Suc i) ts) = M \<and> C |\<union>| done_ids b (take i ts) \<noteq> M)"
  using assms
proof (induction ts arbitrary: st C i)
  case Nil
  then show ?case by simp
next
  case (Cons t ts)
  have step: "tracked b M (C |\<union>| done_ids b [t]) (rendered t st)"
    using Cons.prems by (simp add: tracked_step)
  show ?case
  proof (cases i)
    case 0
    with tracked_buttons [OF Cons.prems(1)] tracked_buttons [OF step] show ?thesis
      by (auto simp: done_ids_Nil)
  next
    case (Suc j)
    with Cons.prems have "j < length ts" by simp
    with Cons.IH [OF step, of j] Cons.prems(2) Suc show ?thesis
      by (simp add: done_ids_step)
  qed
qed

lemma offers_count:
  assumes "tracked b M C st" and "\<forall>t\<in>set ts. counted b t \<longrightarrow> task_id t |\<in>| M"
  shows "count_list (offers b ts st) True
           = (if C \<noteq> M \<and> C |\<union>| done_ids b ts = M then 1 else 0)"
  using assms
proof (induction ts arbitrary: st C)
  case Nil
  then show ?case by (simp add: done_ids_Nil)
next
  case (Cons t ts)
  let ?C = "C |\<union>| done_ids b [t]"
  have step: "tracked b M ?C (rendered t st)"
    using Cons.prems by (simp add: tracked_step)
  have sub: "?C |\<subseteq>| M" using step by (simp add: tracked_def)
  have rest: "count_list (offers b ts (rendered t st)) True
                = (if ?C \<noteq> M \<and> C |\<union>| done_ids b (t # ts) = M then 1 else 0)"
    using Cons.IH [OF step] Cons.prems(2) by (simp add: done_ids_step)
  have up: "?C = M \<Longrightarrow> C |\<union>| done_ids b (t # ts) = M"
  proof -
    assume e: "?C = M"
    from tracked_run [OF step, of ts] Cons.prems(2)
    have "(?C |\<union>| done_ids b ts) |\<subseteq>| M" by (simp add: tracked_def)
    then have "C |\<union>| done_ids b (t # ts) |\<subseteq>| M" by (simp only: done_ids_step)
    moreover have "?C |\<subseteq>| C |\<union>| done_ids b (t # ts)"
      by (auto simp: done_ids_Cons done_ids_Nil)
    ultimately show ?thesis using e by auto
  qed
  have stay: "C = M \<Longrightarrow> ?C = M" using sub by auto
  have now: "(buttons b st < buttons b (rendered t st)) = (C \<noteq> M \<and> ?C = M)"
    using tracked_buttons [OF Cons.prems(1)] tracked_buttons [OF step] by auto
  show ?case
  proof (cases "C = M")
    case True
    with stay rest now show ?thesis by simp
  next
    case False
    show ?thesis
    proof (cases "?C = M")
      case True
      with False rest now show ?thesis by (simp add: up)
    next
      case no: False
      with False rest now show ?thesis by simp
    qed
  qed
qed

lemma registerBatch_tracked:
  assumes "boxes_fresh st" and "batch_id t0 = Some b" and "b \<noteq> []"
  shows "tracked b (fset_of_list (map task_id (t0 # rest))) {||} (registerBatch (t0 # rest) st)"
proof -
  have "own_container b (registerBatch (t0 # rest) st)"
    using assms unfolding own_container_def boxes_fresh_def
    by (fastforce simp: registerBatch_def truthy_def Let_def split: if_splits)
  moreover have "{||} \<noteq> finsert (task_id t0) (task_id |`| fset_of_list rest)"
    by auto
  ultimately show ?thesis
    using assms(2,3) by (simp add: tracked_def registerBatch_def truthy_def Let_def)
qed

lemma offered_once_fresh:
  assumes "boxes_fresh st" and "batch_id t0 = Some b" and "b \<noteq> []"
    and "\<forall>t\<in>set ts. counted b t \<longrightarrow> task_id t |\<in>| fset_of_list (map task_id (t0 # rest))"
  shows "count_list (offers b ts (registerBatch (t0 # rest) st)) True
           = (if done_ids b ts = fset_of_list (map task_id (t0 # rest)) then 1 else 0)
         \<and> (\<forall>i<length ts. offers b ts (registerBatch (t0 # rest) st) ! i
               = (done_ids b (take (Suc i) ts) = fset_of_list (map task_id (t0 # rest))
                  \<and> done_ids b (take i ts) \<noteq> fset_of_list (map task_id (t0 # rest))))"
proof -
  let ?M = "fset_of_list (map task_id (t0 # rest))"
  have tr: "tracked b ?M {||} (registerBatch (t0 # rest) st)"
    using assms(1-3) by (rule registerBatch_tracked)
  have ne: "{||} \<noteq> ?M" by auto
  from offers_count [OF tr assms(4)] ne
  have "count_list (offers b ts (registerBatch (t0 # rest) st)) True
          = (if done_ids b ts = ?M then 1 else 0)"
    by simp
  moreover have "\<forall>i<length ts. offers b ts (registerBatch (t0 # rest) st) ! i
               = (done_ids b (take (Suc i) ts) = ?M \<and> done_ids b (take i ts) \<noteq> ?M)"
    using offers_nth [OF tr assms(4)] by simp
  ultimately show ?thesis by blast
qed

section \<open>The completed set\<close>

lemma rendered_completed:
  assumes "activeBatches st b = Some B"
  shows "activeBatches (rendered t st) b
           = Some (B\<lparr>completed := completed B |\<union>| done_ids b [t]\<rparr>)"
proof (cases "task_id t = ''template''")
  case True
  with assms show ?thesis
    by (simp add: rendered_throws done_ids_Cons done_ids_Nil counted_def)
next
  case ok: False
  have B': "activeBatches (shown t st) b = Some B"
    using assms by (simp add: shown_batches)
  show ?thesis
  proof (cases "tracks b t")
    case True
    with track_counted(1) [OF B' True] ok show ?thesis
      by (simp add: rendered_shown done_ids_Cons done_ids_Nil counted_def)
  next
    case False
    with track_uncounted [OF B' False] ok show ?thesis
      by (simp add: rendered_shown done_ids_Cons done_ids_Nil counted_def)
  qed
qed

lemma render_all_completed:
  assumes "activeBatches st b = Some B"
  shows "activeBatches (render_all ts st) b
           = Some (B\<lparr>completed := completed B |\<union>| done_ids b ts\<rparr>)"
  using assms
proof (induction ts arbitrary: st B)
  case Nil
  then show ?case by (simp add: render_all_def done_ids_Nil)
next
  case (Cons t ts)
  from Cons.IH [OF rendered_completed [OF Cons.prems, of t]]
  show ?case by (simp add: render_all_def done_ids_step)
qed

text \<open>
  C5, as the code has it. Rendering any sequence of job records leaves the member set of a
  registered batch as it is and adds to its completed set exactly the task identifiers of
  the completed records that carry the batch's identifier and are rendered without error,
  members or not. A record whose task identifier is \<^verbatim>\<open>template\<close> makes \<open>renderTask\<close>
  throw before the tracking and adds nothing. So the completed set stays within the member
  set when the records counted are records of members.
\<close>

theorem completed_set_after_rendering:
  assumes "activeBatches st b \<noteq> None"
  shows "members_of b (render_all ts st) = members_of b st
         \<and> completed_of b (render_all ts st) = completed_of b st |\<union>| done_ids b ts
         \<and> (completed_of b st |\<subseteq>| members_of b st
              \<and> (\<forall>t\<in>set ts. counted b t \<longrightarrow> task_id t |\<in>| members_of b st)
            \<longrightarrow> completed_of b (render_all ts st) |\<subseteq>| members_of b (render_all ts st))"
proof -
  from assms obtain B where B: "activeBatches st b = Some B" by auto
  have sub: "(\<forall>t\<in>set ts. counted b t \<longrightarrow> task_id t |\<in>| taskIds B) \<Longrightarrow> done_ids b ts |\<subseteq>| taskIds B"
    by (auto simp: done_ids_def fset_of_list_elem)
  from render_all_completed [OF B, of ts] B sub show ?thesis
    by (simp add: members_of_def completed_of_def)
qed

theorem completed_set_after_rendering_witness:
  "activeBatches (registerBatch abc init) ''b1'' \<noteq> None
   \<and> completed_of ''b1'' (registerBatch abc init) |\<subseteq>| members_of ''b1'' (registerBatch abc init)
   \<and> done_ids ''b1'' arrivals |\<subseteq>| members_of ''b1'' (registerBatch abc init)
   \<and> completed_of ''b1'' (render_all arrivals (registerBatch abc init)) = {|''A'', ''B'', ''C''|}
   \<and> completed_of ''b1'' (render_all arrivals (registerBatch abc init))
        |\<subseteq>| members_of ''b1'' (render_all arrivals (registerBatch abc init))"
proof -
  have reg: "activeBatches (registerBatch abc init) ''b1'' \<noteq> None"
    by (simp add: registerBatch_def abc_def job_def truthy_def Let_def)
  have m: "members_of ''b1'' (registerBatch abc init) = {|''A'', ''B'', ''C''|}"
    by (simp add: members_of_def registerBatch_def abc_def job_def truthy_def Let_def)
  have c: "completed_of ''b1'' (registerBatch abc init) = {||}"
    by (simp add: completed_of_def registerBatch_def abc_def job_def truthy_def Let_def)
  have d: "done_ids ''b1'' arrivals = {|''A'', ''B'', ''C''|}"
    by (auto simp: arrivals_def job_def counted_def tracks_def done_ids_def)
  have mem: "\<forall>t\<in>set arrivals. counted ''b1'' t \<longrightarrow> task_id t |\<in>| {|''A'', ''B'', ''C''|}"
    by (simp add: arrivals_def job_def counted_def tracks_def)
  from completed_set_after_rendering [OF reg, of arrivals] reg m c d mem
  show ?thesis by simp
qed

text \<open>
  C5 as stated fails: the batch of \<open>A\<close>, \<open>B\<close> and \<open>C\<close> is registered and a completed record
  arrives that carries its identifier for a task \<open>X\<close> that is not a member. \<open>renderTask\<close>
  returns and \<open>X\<close> is in the completed set.
\<close>

theorem completed_set_not_subset:
  "renderTask (job ''X'' (Some ''b1'') ''completed'') (registerBatch abc init)
     = Inr (rendered (job ''X'' (Some ''b1'') ''completed'') (registerBatch abc init))
   \<and> members_of ''b1'' (rendered (job ''X'' (Some ''b1'') ''completed'') (registerBatch abc init))
     = {|''A'', ''B'', ''C''|}
   \<and> completed_of ''b1'' (rendered (job ''X'' (Some ''b1'') ''completed'') (registerBatch abc init))
     = {|''X''|}
   \<and> \<not> completed_of ''b1'' (rendered (job ''X'' (Some ''b1'') ''completed'') (registerBatch abc init))
         |\<subseteq>| members_of ''b1'' (rendered (job ''X'' (Some ''b1'') ''completed'') (registerBatch abc init))"
proof -
  have reg: "activeBatches (registerBatch abc init) ''b1''
               = Some \<lparr>taskIds = {|''A'', ''B'', ''C''|}, completed = {||}, container = 0\<rparr>"
    by (simp add: registerBatch_def abc_def job_def truthy_def Let_def init_def)
  have ok: "task_id (job ''X'' (Some ''b1'') ''completed'') \<noteq> ''template''"
    by (simp add: job_def)
  have "done_ids ''b1'' [job ''X'' (Some ''b1'') ''completed''] = {|''X''|}"
    by (simp add: done_ids_def counted_def tracks_def job_def)
  with rendered_completed [OF reg, of "job ''X'' (Some ''b1'') ''completed''"]
  show ?thesis
    by (simp add: members_of_def completed_of_def renderTask_returns [OF ok]
        rendered_shown [OF ok])
qed

section \<open>What the document shows for a job\<close>

lemma find_task_cong:
  assumes "\<And>r. el_id (E' r) = el_id (E r)"
  shows "find_task E' i ns = find_task E i ns"
proof (induction ns)
  case Nil
  show ?case by simp
next
  case (Cons n ns)
  then show ?case by (cases n) (simp_all add: assms)
qed

lemma find_top_cong:
  assumes "\<And>r. el_id (E' r) = el_id (E r)"
    and "\<And>c. find_task E i (B' c) = find_task E i (B c)"
  shows "find_top E' B' i ts = find_top E B i ts"
proof (induction ts)
  case Nil
  show ?case by simp
next
  case (Cons n ts)
  have "find_task E' i (B' c) = find_task E i (B c)" for c
    using find_task_cong [of E' E i "B' c", OF assms(1)] assms(2) by simp
  with Cons show ?case
    by (cases n) (simp_all add: assms(1) split: option.splits)
qed

lemma find_task_Some: "find_task E i ns = Some r \<Longrightarrow> el_id (E r) = i"
  by (induction E i ns rule: find_task.induct) (auto split: if_splits)

lemma find_top_Some: "find_top E B i ts = Some r \<Longrightarrow> el_id (E r) = i"
proof (induction ts)
  case Nil
  then show ?case by simp
next
  case (Cons n ts)
  then show ?case
    by (cases n) (auto split: if_splits option.splits dest: find_task_Some)
qed

lemma getElementById_set_texts:
  "getElementById i (set_texts r t st) = getElementById i st"
proof -
  have "find_top (els (set_texts r t st)) (boxes st) i (tasksContainer st)
          = find_top (els st) (boxes st) i (tasksContainer st)"
    by (rule find_top_cong) (simp_all add: set_texts_same)
  then show ?thesis
    by (simp add: getElementById_def set_texts_same(1,2))
qed

lemma task_element_found:
  assumes "getElementById (task_el_id (task_id t)) st = Some f"
  shows "task_element t st = (f, st)"
  using assms by (simp add: task_element_def)

lemma batch_of_els: "batch_of t (st\<lparr>els := e, next_el := n\<rparr>) = batch_of t st"
  by (simp add: batch_of_def split: option.splits)

lemma task_element_top:
  assumes "getElementById (task_el_id (task_id t)) st = None" and "batch_of t st = None"
  shows "fst (task_element t st) = TaskElement (next_el st)"
    and "getElementById (task_el_id (task_id t)) (snd (task_element t st))
           = Some (TaskElement (next_el st))"
    and "boxes (snd (task_element t st)) = boxes st"
  using assms
  by (simp_all add: task_element_def Let_def batch_of_els getElementById_def
      split: if_splits)

lemma task_element_unbatched:
  assumes "batch_of t st = None"
  shows "boxes (snd (task_element t st)) = boxes st"
    and "getElementById (task_el_id (task_id t)) (snd (task_element t st))
           = Some (fst (task_element t st))"
proof -
  show "boxes (snd (task_element t st)) = boxes st"
    using assms
    by (cases "getElementById (task_el_id (task_id t)) st")
       (simp_all add: task_element_top task_element_found)
  show "getElementById (task_el_id (task_id t)) (snd (task_element t st))
           = Some (fst (task_element t st))"
    using assms
    by (cases "getElementById (task_el_id (task_id t)) st")
       (simp_all add: task_element_top task_element_found)
qed

lemma getElementById_track:
  "getElementById i (track_batch t st) = getElementById i st"
proof -
  have "find_top (els (track_batch t st)) (boxes (track_batch t st)) i
            (tasksContainer (track_batch t st))
          = find_top (els st) (boxes st) i (tasksContainer st)"
    by (auto simp: track_batch_def Let_def split: option.splits intro!: find_top_cong)
  then show ?thesis
    by (simp add: getElementById_def)
qed

lemma els_track: "els (track_batch t st) = els st"
  by (simp add: track_batch_def Let_def split: option.splits)

lemma track_unregistered: "batch_of t st = None \<Longrightarrow> track_batch t st = st"
  by (simp add: track_batch_def)

lemma batch_of_shown: "batch_of t (shown t st) = batch_of t st"
  by (simp add: batch_of_def shown_batches split: option.splits)

lemma rendered_unregistered:
  assumes "batch_of t st = None" and "task_id t \<noteq> ''template''"
  shows "rendered t st = shown t st"
  using assms by (simp add: rendered_shown track_unregistered batch_of_shown)

lemma rendered_quiet:
  "alerts (rendered t st) = alerts st" "logged (rendered t st) = logged st"
proof -
  have "alerts (snd (task_element t st)) = alerts st \<and> logged (snd (task_element t st)) = logged st"
    by (simp add: task_element_def Let_def split: option.splits)
  then have "alerts (shown t st) = alerts st \<and> logged (shown t st) = logged st"
    by (simp add: shown_snd [of alerts] shown_snd [of logged] set_texts_same)
  moreover have "alerts (track_batch t s) = alerts s \<and> logged (track_batch t s) = logged s" for s
    by (simp add: track_batch_def Let_def split: option.splits)
  ultimately show "alerts (rendered t st) = alerts st" "logged (rendered t st) = logged st"
    by (cases "task_id t = ''template''"; simp add: rendered_shown rendered_throws)+
qed

text \<open>
  C10, as the code has it. A job record whose task identifier is not \<^verbatim>\<open>template\<close> and
  whose batch identifier has no entry in \<open>activeBatches\<close>, completed or not, is rendered:
  \<open>renderTask\<close> returns, the record's element is in the document afterwards and shows the
  record's state and detail. The registry and every batch container stay as they were, so
  nothing is tracked and no download button is added anywhere, and nothing is alerted or
  logged.
\<close>

theorem unregistered_batch_is_rendered_untracked:
  assumes "batch_id t = Some b" and "activeBatches st b = None"
    and "task_id t \<noteq> ''template''"
  shows "renderTask t st = Inr (rendered t st)
         \<and> shown_state (task_id t) (rendered t st) = Some (state t)
         \<and> shown_detail (task_id t) (rendered t st)
             = Some (if truthy (detail t) then the (detail t) else [])
         \<and> activeBatches (rendered t st) = activeBatches st
         \<and> boxes (rendered t st) = boxes st
         \<and> alerts (rendered t st) = alerts st
         \<and> logged (rendered t st) = logged st"
proof -
  from assms have none: "batch_of t st = None"
    by (simp add: batch_of_def)
  let ?s = "snd (task_element t st)"
  from task_element_task [OF assms(3), of st]
  obtain r where r: "fst (task_element t st) = TaskElement r" by blast
  have eq: "rendered t st = set_texts r t ?s"
    using none assms(3) r by (simp add: rendered_unregistered shown_set_texts)
  have found: "getElementById (task_el_id (task_id t)) (rendered t st) = Some (TaskElement r)"
    using task_element_unbatched(2) [OF none] r by (simp add: eq getElementById_set_texts)
  have "boxes (rendered t st) = boxes st"
    using task_element_unbatched(1) [OF none] by (simp add: eq set_texts_same)
  moreover have "activeBatches (rendered t st) = activeBatches st"
    using none assms(3) by (simp add: rendered_unregistered shown_batches)
  moreover have "shown_state (task_id t) (rendered t st) = Some (state t)"
    and "shown_detail (task_id t) (rendered t st)
           = Some (if truthy (detail t) then the (detail t) else [])"
    using found by (simp_all add: shown_state_def shown_detail_def eq set_texts_same)
  moreover have "renderTask t st = Inr (rendered t st)"
    using assms(3) by (simp add: renderTask_returns rendered_shown)
  ultimately show ?thesis
    by (simp add: rendered_quiet)
qed

theorem unregistered_batch_is_rendered_untracked_witness:
  "batch_id (job ''S'' (Some ''b9'') ''completed'') = Some ''b9''
   \<and> activeBatches (registerBatch abc init) ''b9'' = None
   \<and> task_id (job ''S'' (Some ''b9'') ''completed'') \<noteq> ''template''
   \<and> shown_state ''S'' (rendered (job ''S'' (Some ''b9'') ''completed'') (registerBatch abc init))
       = Some ''completed''
   \<and> boxes (rendered (job ''S'' (Some ''b9'') ''completed'') (registerBatch abc init))
       = boxes (registerBatch abc init)"
proof -
  have b: "batch_id (job ''S'' (Some ''b9'') ''completed'') = Some ''b9''"
    by (simp add: job_def)
  have n: "activeBatches (registerBatch abc init) ''b9'' = None"
    by (simp add: registerBatch_def abc_def job_def truthy_def Let_def init_def)
  have i: "task_id (job ''S'' (Some ''b9'') ''completed'') \<noteq> ''template''"
    by (simp add: job_def)
  from unregistered_batch_is_rendered_untracked [OF b n i] b n i show ?thesis
    by (simp add: job_def)
qed

text \<open>
  C10 as stated fails: a completed record arrives whose batch identifier is not registered
  and whose task identifier is \<^verbatim>\<open>template\<close>. The lookup of its element id finds the
  template of the page, \<open>renderTask\<close> throws, and the document shows no state for the job.
\<close>

theorem template_record_throws:
  "activeBatches (registerBatch abc init) ''b9'' = None
   \<and> renderTask (job ''template'' (Some ''b9'') ''completed'') (registerBatch abc init)
       = Inl TypeError
   \<and> shown_state ''template''
        (rendered (job ''template'' (Some ''b9'') ''completed'') (registerBatch abc init)) = None"
proof -
  have t: "task_id (job ''template'' (Some ''b9'') ''completed'') = ''template''"
    by (simp add: job_def)
  have "activeBatches (registerBatch abc init) ''b9'' = None"
    by (simp add: registerBatch_def abc_def job_def truthy_def Let_def init_def)
  then show ?thesis
    by (simp add: renderTask_throws [OF t] rendered_throws [OF t] shown_state_def
        getElementById_def task_el_id_def)
qed

text \<open>
  C4, as the code has it. \<open>renderTask\<close> writes the state of every record it is given: a
  job that the document shows, in whatever state, terminal or not, is shown in the state of
  the record afterwards, by the same element.
\<close>

theorem every_record_is_applied:
  assumes "getElementById (task_el_id (task_id t)) st = Some (TaskElement r)"
  shows "renderTask t st = Inr (rendered t st)
         \<and> getElementById (task_el_id (task_id t)) (rendered t st) = Some (TaskElement r)
         \<and> shown_state (task_id t) (rendered t st) = Some (state t)"
proof -
  from assms have ok: "task_id t \<noteq> ''template''"
    by (auto simp: getElementById_def task_el_id_template)
  have "fst (task_element t st) = TaskElement r" "snd (task_element t st) = st"
    using task_element_found [OF assms] by simp_all
  then have eq: "rendered t st = track_batch t (set_texts r t st)"
    using shown_set_texts [of t st r] by (simp add: rendered_shown [OF ok])
  have "getElementById (task_el_id (task_id t)) (rendered t st) = Some (TaskElement r)"
    using assms by (simp add: eq getElementById_track getElementById_set_texts)
  moreover have "renderTask t st = Inr (rendered t st)"
    by (simp add: renderTask_returns [OF ok] rendered_shown [OF ok])
  ultimately show ?thesis
    by (simp add: shown_state_def eq els_track set_texts_same)
qed

lemmas render_defs =
  rendered_def renderTask_def task_element_def getElementById_def task_el_id_def batch_of_def
  Let_def setState_def setStatusMessage_def setDownload_def truthy_def track_batch_def
  has_batch_download_def fcard_finsert_if

lemma f_done_found:
  "getElementById (task_el_id (task_id (job ''F'' None ''processing''))) f_done
     = Some (TaskElement 0)"
  by (simp add: f_done_def job_def init_def render_defs)

theorem every_record_is_applied_witness:
  "getElementById (task_el_id (task_id (job ''F'' None ''processing''))) f_done
     = Some (TaskElement 0)
   \<and> shown_state ''F'' (rendered (job ''F'' None ''processing'') f_done) = Some ''processing''"
  using every_record_is_applied [OF f_done_found] f_done_found
  by (simp add: job_def)

text \<open>
  C4 as stated fails: job \<open>F\<close> is shown completed, a stale record of \<open>F\<close> in state
  \<^verbatim>\<open>processing\<close> is rendered, and the document shows \<open>F\<close> as processing.
\<close>

theorem terminal_state_overwritten:
  "shown_state ''F'' f_done = Some ''completed''
   \<and> renderTask (job ''F'' None ''processing'') f_done
       = Inr (rendered (job ''F'' None ''processing'') f_done)
   \<and> shown_state ''F'' (rendered (job ''F'' None ''processing'') f_done) = Some ''processing''
   \<and> shown_state ''F'' (rendered (job ''F'' None ''processing'') f_done) \<noteq> Some ''completed''"
  by (simp add: shown_state_def f_done_def job_def init_def render_defs)

section \<open>Logout\<close>

lemma delete_filter: "AList.delete k ps = filter (\<lambda>(k', v). k' \<noteq> k) ps"
  by (induction ps) auto

lemma fold_clearInterval:
  "fold (\<lambda>(k, iv). clearInterval iv) ps st
     = st\<lparr>timers := filter (\<lambda>(iv, k). iv \<notin> snd ` set ps) (timers st)\<rparr>"
proof (induction ps arbitrary: st)
  case Nil
  show ?case by simp
next
  case (Cons p ps)
  obtain k iv where p: "p = (k, iv)" by (cases p)
  have "filter (\<lambda>(iv', k). iv' \<notin> snd ` set ps) (filter (\<lambda>(k', v). k' \<noteq> iv) (timers st))
          = filter (\<lambda>(iv', k). iv' \<notin> snd ` set (p # ps)) (timers st)"
    by (auto simp: p intro: filter_cong)
  with Cons [of "clearInterval iv st"] show ?case
    by (simp add: p clearInterval_def delete_filter)
qed

lemma logout_fields:
  "token (logout st) = None"
  "user (logout st) = None"
  "tasksContainer (logout st) = []"
  "pollIntervals (logout st) = []"
  "timers (logout st) = filter (\<lambda>(iv, k). iv \<notin> snd ` set (pollIntervals st)) (timers st)"
  "activeBatches (logout st) = activeBatches st"
  "boxes (logout st) = boxes st"
  "els (logout st) = els st"
  "alerts (logout st) = alerts st"
  "inflight (logout st) = inflight st"
  by (simp_all add: logout_def Let_def showLoginPanel_def fold_clearInterval)

lemmas eval_defs =
  run_def logged_in_def init_def job_def abc_def registerBatch_def truthy_def Let_def
  rendered_def renderTask_def task_element_def getElementById_def task_el_id_def batch_of_def
  setState_def
  setStatusMessage_def setDownload_def track_batch_def has_batch_download_def pollTask_def
  tick_def respond_def stop_poll_def clearInterval_def alert_def logout_def showLoginPanel_def
  fcard_finsert_if

lemma polling_abc_polls:
  "pollIntervals polling_abc = [(''A'', 0), (''B'', 1), (''C'', 2)]"
  "timers polling_abc = [(0, ''A''), (1, ''B''), (2, ''C'')]"
  by (simp_all add: polling_abc_def eval_defs)

lemma polling_abc_batch:
  "activeBatches polling_abc ''b1''
     = Some \<lparr>taskIds = {|''A'', ''B'', ''C''|}, completed = {||}, container = 0\<rparr>"
  by (simp add: polling_abc_def eval_defs)

text \<open>
  C7, as the code has it. \<open>logout\<close> clears the subscription registry: \<open>pollIntervals\<close> is
  empty and every interval it recorded is stopped, so that no interval runs when all
  running ones were recorded; token and user are removed and \<^verbatim>\<open>#tasks\<close> is emptied. The
  batch registry and the batch containers are left as they were.
\<close>

theorem logout_clears_polls_keeps_batches:
  "pollIntervals (logout st) = []
   \<and> (\<forall>(k, iv)\<in>set (pollIntervals st). iv \<notin> fst ` set (timers (logout st)))
   \<and> (fst ` set (timers st) \<subseteq> snd ` set (pollIntervals st) \<longrightarrow> timers (logout st) = [])
   \<and> token (logout st) = None \<and> user (logout st) = None
   \<and> tasksContainer (logout st) = []
   \<and> activeBatches (logout st) = activeBatches st
   \<and> boxes (logout st) = boxes st"
proof -
  have "\<forall>(k, iv)\<in>set (pollIntervals st). iv \<notin> fst ` set (timers (logout st))"
    by (force simp: logout_fields)
  moreover have "timers (logout st) = []"
    if "fst ` set (timers st) \<subseteq> snd ` set (pollIntervals st)"
  proof -
    from that have "\<And>a b. (a, b) \<in> set (timers st) \<Longrightarrow> a \<in> snd ` set (pollIntervals st)"
      by force
    then show ?thesis
      by (auto simp: logout_fields filter_empty_conv)
  qed
  ultimately show ?thesis
    by (simp add: logout_fields)
qed

theorem logout_clears_polls_keeps_batches_witness:
  "(''B'', 1) \<in> set (pollIntervals polling_abc)
   \<and> fst ` set (timers polling_abc) \<subseteq> snd ` set (pollIntervals polling_abc)
   \<and> pollIntervals (logout polling_abc) = []
   \<and> timers (logout polling_abc) = []
   \<and> 1 \<notin> fst ` set (timers (logout polling_abc))
   \<and> activeBatches (logout polling_abc) = activeBatches polling_abc"
  using logout_clears_polls_keeps_batches [of polling_abc]
  by (simp add: polling_abc_polls)

text \<open>
  C7 as stated fails: after the logout of the page that polls the three jobs of batch
  \<open>b1\<close>, the batch is still registered with its members.
\<close>

theorem batch_registry_survives_logout:
  "activeBatches (logout polling_abc) ''b1'' \<noteq> None
   \<and> members_of ''b1'' (logout polling_abc) = {|''A'', ''B'', ''C''|}"
  by (simp add: members_of_def logout_fields polling_abc_batch)

section \<open>Polling\<close>

lemma stop_poll_fields:
  "token (stop_poll k iv st) = token st"
  "user (stop_poll k iv st) = user st"
  "timers (stop_poll k iv st) = AList.delete iv (timers st)"
  "pollIntervals (stop_poll k iv st) = AList.delete k (pollIntervals st)"
  "alerts (stop_poll k iv st) = alerts st"
  "inflight (stop_poll k iv st) = inflight st"
  "page (stop_poll k iv st) = page st"
  by (simp_all add: stop_poll_def clearInterval_def page_def)

lemma unauthorized_fields:
  "token (on_response k iv Unauthorized st) = None"
  "user (on_response k iv Unauthorized st) = None"
  "pollIntervals (on_response k iv Unauthorized st) = []"
  "timers (on_response k iv Unauthorized st)
     = AList.delete iv (filter (\<lambda>(iv, k). iv \<notin> snd ` set (pollIntervals st)) (timers st))"
  "alerts (on_response k iv Unauthorized st) = alerts st @ [session_expired]"
  by (simp_all add: alert_def stop_poll_fields logout_fields session_expired_def)

lemma unauthorized_all_alerts:
  "alerts (fold (\<lambda>(k, v). on_response k v Unauthorized) rs st)
     = alerts st @ replicate (length rs) session_expired"
proof (induction rs arbitrary: st)
  case Nil
  show ?case by simp
next
  case (Cons p rs)
  obtain k v where p: "p = (k, v)" by (cases p)
  from Cons [of "on_response k v Unauthorized st"] show ?case
    by (simp add: p unauthorized_fields(5) replicate_append_same del: on_response.simps)
qed

lemma getElementById_inflight: "getElementById i (st\<lparr>inflight := x\<rparr>) = getElementById i st"
  by (simp add: getElementById_def)

lemma batch_of_inflight: "batch_of d (st\<lparr>inflight := x\<rparr>) = batch_of d st"
  by (simp add: batch_of_def split: option.splits)

lemma task_element_inflight:
  "task_element d (st\<lparr>inflight := x\<rparr>)
     = (fst (task_element d st), (snd (task_element d st))\<lparr>inflight := x\<rparr>)"
proof (cases "getElementById (task_el_id (task_id d)) st")
  case (Some f)
  then show ?thesis
    by (simp add: task_element_def getElementById_inflight)
next
  case None
  have b: "batch_of d (st\<lparr>inflight := x, els := e, next_el := n\<rparr>) = batch_of d st" for e n
    by (simp add: batch_of_def split: option.splits)
  from None show ?thesis
    by (cases "batch_of d st")
       (simp_all add: task_element_def getElementById_inflight Let_def b batch_of_els
          batch_of_inflight)
qed

lemma set_texts_inflight:
  "set_texts r d (st\<lparr>inflight := x\<rparr>) = (set_texts r d st)\<lparr>inflight := x\<rparr>"
  by (simp add: set_texts_def Let_def setState_def setStatusMessage_def setDownload_def)

lemma track_batch_inflight:
  "track_batch d (st\<lparr>inflight := x\<rparr>) = (track_batch d st)\<lparr>inflight := x\<rparr>"
proof (cases "batch_of d st")
  case None
  then show ?thesis by (simp add: track_batch_def batch_of_inflight)
next
  case (Some B)
  then show ?thesis by (simp add: track_batch_def batch_of_inflight Let_def)
qed

lemma shown_inflight:
  "shown d (st\<lparr>inflight := x\<rparr>) = (shown d st)\<lparr>inflight := x\<rparr>"
proof (cases "task_element d st")
  case (Pair e s)
  then show ?thesis
    by (cases e) (simp_all add: shown_def task_element_inflight set_texts_inflight)
qed

lemma rendered_inflight:
  "rendered d (st\<lparr>inflight := x\<rparr>) = (rendered d st)\<lparr>inflight := x\<rparr>"
  by (cases "task_id d = ''template''")
     (simp_all add: rendered_throws rendered_shown shown_inflight track_batch_inflight)

lemma both_in_flight_fields:
  "pollIntervals both_in_flight = [(''D'', 0), (''E'', 1)]"
  "timers both_in_flight = [(0, ''D''), (1, ''E'')]"
  "inflight both_in_flight = [(''D'', 0), (''E'', 1)]"
  "alerts both_in_flight = []"
  by (simp_all add: both_in_flight_def polling_de_def eval_defs)

text \<open>
  C2, as the code has it. A poll response with status 401 removes token and user, empties
  \<open>pollIntervals\<close>, stops every interval it recorded and the interval of the callback
  itself, so that no interval runs when all running ones were recorded or are the
  callback's own, and shows one alert. Every response with status 401 does so: as many
  alerts are shown as such responses arrive.
\<close>

theorem unauthorized_response_tears_down:
  "token (on_response taskId iv Unauthorized st) = None
   \<and> user (on_response taskId iv Unauthorized st) = None
   \<and> pollIntervals (on_response taskId iv Unauthorized st) = []
   \<and> (\<forall>(k, v)\<in>set (pollIntervals st).
         v \<notin> fst ` set (timers (on_response taskId iv Unauthorized st)))
   \<and> iv \<notin> fst ` set (timers (on_response taskId iv Unauthorized st))
   \<and> (fst ` set (timers st) \<subseteq> insert iv (snd ` set (pollIntervals st))
        \<longrightarrow> timers (on_response taskId iv Unauthorized st) = [])
   \<and> alerts (on_response taskId iv Unauthorized st) = alerts st @ [session_expired]
   \<and> alerts (fold (\<lambda>(k, v). on_response k v Unauthorized) rs st)
        = alerts st @ replicate (length rs) session_expired"
proof -
  let ?st = "on_response taskId iv Unauthorized st"
  have tm: "timers ?st
      = filter (\<lambda>(k', v). k' \<noteq> iv)
          (filter (\<lambda>(iv, k). iv \<notin> snd ` set (pollIntervals st)) (timers st))"
    by (simp only: unauthorized_fields(4) delete_filter)
  have regd: "\<forall>(k, v)\<in>set (pollIntervals st). v \<notin> fst ` set (timers ?st)"
    unfolding tm by force
  have own: "iv \<notin> fst ` set (timers ?st)"
    unfolding tm by force
  have none: "timers ?st = []"
    if "fst ` set (timers st) \<subseteq> insert iv (snd ` set (pollIntervals st))"
  proof -
    from that have "\<And>a b. (a, b) \<in> set (timers st) \<Longrightarrow> a = iv \<or> a \<in> snd ` set (pollIntervals st)"
      by force
    then show ?thesis
      unfolding tm by (auto simp: filter_empty_conv)
  qed
  from regd own none show ?thesis
    by (simp add: unauthorized_fields(1,2,3,5) unauthorized_all_alerts del: on_response.simps)
qed

theorem unauthorized_response_tears_down_witness:
  "(''E'', 1) \<in> set (pollIntervals both_in_flight)
   \<and> fst ` set (timers both_in_flight) \<subseteq> insert 0 (snd ` set (pollIntervals both_in_flight))
   \<and> 1 \<notin> fst ` set (timers (on_response ''D'' 0 Unauthorized both_in_flight))
   \<and> timers (on_response ''D'' 0 Unauthorized both_in_flight) = []
   \<and> alerts (on_response ''D'' 0 Unauthorized both_in_flight) = [session_expired]"
  using unauthorized_response_tears_down [of "''D''" 0 both_in_flight "[]"]
  by (simp add: both_in_flight_fields del: on_response.simps)

text \<open>
  C2 as stated fails: \<open>D\<close> and \<open>E\<close> are polled, the status request of each is in flight and
  each comes back with status 401. Two alerts are shown.
\<close>

theorem two_unauthorized_two_alerts:
  "alerts (run [Respond 0 Unauthorized, Respond 0 Unauthorized] both_in_flight)
     = [session_expired, session_expired]"
proof -
  have one: "inflight (respond 0 Unauthorized both_in_flight) = [(''E'', 1)]"
    by (simp add: respond_def both_in_flight_fields stop_poll_fields alert_def logout_fields)
  have "alerts (respond 0 Unauthorized both_in_flight) = [session_expired]"
    by (simp add: respond_def both_in_flight_fields unauthorized_fields(5) del: on_response.simps)
  with one show ?thesis
    by (simp add: run_def respond_def unauthorized_fields(5) del: on_response.simps)
qed

lemma page_inflight: "page (st\<lparr>inflight := x\<rparr>) = page st"
  by (simp add: page_def)

lemma page_respond_Ok:
  assumes "i < length (inflight st)"
  shows "page (respond i (Ok d) st) = page (rendered d st)"
proof -
  obtain k iv where p: "inflight st ! i = (k, iv)" by (cases "inflight st ! i")
  let ?st = "st\<lparr>inflight := take i (inflight st) @ drop (Suc i) (inflight st)\<rparr>"
  have r: "respond i (Ok d) st = on_response k iv (Ok d) ?st"
    using assms p by (simp add: respond_def del: on_response.simps)
  show ?thesis
  proof (cases "task_id d = ''template''")
    case True
    then show ?thesis
      by (simp add: r renderTask_throws rendered_throws page_def)
  next
    case False
    have "page (on_response k iv (Ok d) ?st) = page (rendered d ?st)"
      by (simp add: renderTask_returns [OF False] rendered_shown [OF False] stop_poll_fields(7))
    then show ?thesis
      by (simp add: r rendered_inflight page_inflight)
  qed
qed

lemma f_twice_fields:
  "pollIntervals f_twice = [(''F'', 0)]"
  "timers f_twice = [(0, ''F'')]"
  "inflight f_twice = [(''F'', 0), (''F'', 0)]"
  "shown_state ''F'' f_twice = Some ''queued''"
  "completed_of ''b2'' f_twice = {||}"
  "buttons ''b2'' f_twice = 0"
  by (simp_all add: f_twice_def shown_state_def completed_of_def buttons_def eval_defs)





text \<open>
  C6, as the code has it. An interval that fires with a token sends a status request
  whatever requests are in flight, and a job record that answers any request in flight,
  the oldest or not, is rendered when it arrives. Records are applied in their order of
  arrival; the script has no sequence number and does not wait for an answer.
\<close>

theorem responses_applied_on_arrival:
  "(map_of (timers st) iv = Some taskId \<and> truthy (token st)
      \<longrightarrow> inflight (tick iv st) = inflight st @ [(taskId, iv)])
   \<and> (i < length (inflight st)
      \<longrightarrow> page (respond i (Ok d) st) = page (rendered d st))"
  by (simp add: tick_def page_respond_Ok)

theorem responses_applied_on_arrival_witness:
  "map_of (timers f_twice) 0 = Some ''F'' \<and> truthy (token f_twice)
   \<and> inflight (tick 0 f_twice) = [(''F'', 0), (''F'', 0), (''F'', 0)]
   \<and> 1 < length (inflight f_twice)
   \<and> page (respond 1 (Ok (job ''F'' (Some ''b2'') ''completed'')) f_twice)
       = page (rendered (job ''F'' (Some ''b2'') ''completed'') f_twice)"
proof -
  have "truthy (token f_twice)"
    by (simp add: f_twice_def eval_defs)
  with responses_applied_on_arrival [of f_twice 0 "''F''" 1 "job ''F'' (Some ''b2'') ''completed''"]
  show ?thesis
    by (simp add: f_twice_fields)
qed

text \<open>
  C6 as stated fails: the interval of \<open>F\<close> fires twice before any answer, so two requests
  are in flight. The second is answered first, with \<open>F\<close> completed; the first is answered
  after it, with \<open>F\<close> processing, and is applied: the document shows \<open>F\<close> processing.
\<close>

theorem stale_response_applied_last:
  "inflight f_twice = [(''F'', 0), (''F'', 0)]
   \<and> shown_state ''F'' (run [Respond 1 (Ok (job ''F'' (Some ''b2'') ''completed''))] f_twice)
       = Some ''completed''
   \<and> shown_state ''F'' (run [Respond 1 (Ok (job ''F'' (Some ''b2'') ''completed'')),
                              Respond 0 (Ok (job ''F'' (Some ''b2'') ''processing''))] f_twice)
       = Some ''processing''"
  by (simp add: f_twice_def shown_state_def eval_defs)

section \<open>Invariants of every run of the page\<close>

lemma boxes_fresh_same:
  "activeBatches st' = activeBatches st \<Longrightarrow> next_box st' = next_box st
     \<Longrightarrow> boxes_fresh st' = boxes_fresh st"
  by (simp add: boxes_fresh_def)

lemma next_box_shown: "next_box (shown t st) = next_box st"
proof -
  have "next_box (snd (task_element t st)) = next_box st"
    by (simp add: task_element_def Let_def split: option.splits)
  then show ?thesis
    by (simp add: shown_snd [of next_box] set_texts_same)
qed

lemma boxes_fresh_track: "boxes_fresh st \<Longrightarrow> boxes_fresh (track_batch t st)"
  unfolding boxes_fresh_def
  by (auto simp: track_batch_def truthy_def batch_of_def Let_def
      split: option.splits if_splits)

lemma boxes_fresh_rendered: "boxes_fresh st \<Longrightarrow> boxes_fresh (rendered t st)"
  using boxes_fresh_same [of "shown t st" st]
  by (cases "task_id t = ''template''")
     (simp_all add: rendered_throws rendered_shown boxes_fresh_track shown_batches next_box_shown)

lemma boxes_fresh_pollTask: "boxes_fresh (pollTask k st) = boxes_fresh st"
  by (rule boxes_fresh_same) (simp_all add: pollTask_def Let_def)

lemma boxes_fresh_stop_poll: "boxes_fresh (stop_poll k iv st) = boxes_fresh st"
  by (rule boxes_fresh_same) (simp_all add: stop_poll_def clearInterval_def)

lemma boxes_fresh_logout: "boxes_fresh (logout st) = boxes_fresh st"
  by (rule boxes_fresh_same)
     (simp_all add: logout_def Let_def showLoginPanel_def fold_clearInterval)

lemma boxes_fresh_alert: "boxes_fresh (alert m st) = boxes_fresh st"
  by (rule boxes_fresh_same) (simp_all add: alert_def)

lemma boxes_fresh_registerBatch: "boxes_fresh st \<Longrightarrow> boxes_fresh (registerBatch tasks st)"
  unfolding boxes_fresh_def
  by (auto simp: registerBatch_def Let_def less_Suc_eq split: list.splits if_splits)

lemma boxes_fresh_render_and_poll:
  "boxes_fresh st \<Longrightarrow> boxes_fresh (render_and_poll ts st)"
proof (induction ts arbitrary: st)
  case Nil
  then show ?case by simp
next
  case (Cons t ts)
  show ?case
  proof (cases "renderTask t st")
    case (Inl e)
    with Cons.prems show ?thesis
      by (simp add: boxes_fresh_alert)
  next
    case (Inr s)
    with Cons.prems boxes_fresh_rendered [of st t] have "boxes_fresh s"
      by (simp add: rendered_def)
    with Cons.IH [of "pollTask (task_id t) s"] Inr show ?thesis
      by (simp add: boxes_fresh_pollTask)
  qed
qed

lemma boxes_fresh_on_response:
  "boxes_fresh st \<Longrightarrow> boxes_fresh (on_response k iv r st)"
proof (cases r)
  case Unauthorized
  then show "boxes_fresh st \<Longrightarrow> ?thesis"
    by (simp add: boxes_fresh_stop_poll boxes_fresh_logout boxes_fresh_alert)
next
  case (Ok d)
  show "boxes_fresh st \<Longrightarrow> ?thesis"
  proof (cases "renderTask d st")
    case (Inl e)
    with Ok show "boxes_fresh st \<Longrightarrow> ?thesis"
      by (simp add: boxes_fresh_def)
  next
    case (Inr s)
    assume "boxes_fresh st"
    with boxes_fresh_rendered [of st d] Inr have "boxes_fresh s"
      by (simp add: rendered_def)
    with Ok Inr show ?thesis
      by (simp add: boxes_fresh_stop_poll)
  qed
next
  case Failure
  then show "boxes_fresh st \<Longrightarrow> ?thesis"
    by (simp add: boxes_fresh_def)
qed

lemma boxes_fresh_step: "boxes_fresh st \<Longrightarrow> boxes_fresh (step e st)"
proof (cases e)
  case (Login jwt u)
  then show "boxes_fresh st \<Longrightarrow> ?thesis"
    by (simp add: boxes_fresh_def logged_in_def)
next
  case (Submitted s)
  then show "boxes_fresh st \<Longrightarrow> ?thesis"
    by (cases s)
       (simp_all add: boxes_fresh_render_and_poll boxes_fresh_registerBatch
          del: render_and_poll.simps)
next
  case (Tick iv)
  have "boxes_fresh (s\<lparr>inflight := x\<rparr>) = boxes_fresh s" for s x
    by (simp add: boxes_fresh_def)
  with Tick show "boxes_fresh st \<Longrightarrow> ?thesis"
    by (simp add: tick_def boxes_fresh_stop_poll split: option.splits)
next
  case (Respond i r)
  have "boxes_fresh (s\<lparr>inflight := x\<rparr>) = boxes_fresh s" for s x
    by (simp add: boxes_fresh_def)
  with Respond show "boxes_fresh st \<Longrightarrow> ?thesis"
    by (simp add: respond_def boxes_fresh_on_response split: prod.splits)
next
  case Logout
  then show "boxes_fresh st \<Longrightarrow> ?thesis"
    by (simp add: boxes_fresh_logout)
qed

text \<open>
  In every state the page reaches from its loading, the containers of the registered
  batches were made before the next one will be: a newly registered batch never shares its
  container.
\<close>

lemma boxes_fresh_run: "boxes_fresh (run es init)"
proof -
  have "boxes_fresh st \<Longrightarrow> boxes_fresh (fold step es st)" for st
    by (induction es arbitrary: st) (simp_all add: boxes_fresh_step)
  moreover have "boxes_fresh init"
    by (simp add: boxes_fresh_def init_def)
  ultimately show ?thesis
    by (simp add: run_def)
qed

lemma pollIntervals_rendered: "pollIntervals (rendered t st) = pollIntervals st"
proof -
  have "pollIntervals (snd (task_element t st)) = pollIntervals st"
    by (simp add: task_element_def Let_def split: option.splits)
  then have "pollIntervals (shown t st) = pollIntervals st"
    by (simp add: shown_snd [of pollIntervals] set_texts_same)
  moreover have "pollIntervals (track_batch t s) = pollIntervals s" for s
    by (simp add: track_batch_def Let_def split: option.splits)
  ultimately show ?thesis
    by (cases "task_id t = ''template''") (simp_all add: rendered_shown rendered_throws)
qed

lemma distinct_pollTask:
  "distinct (map fst (pollIntervals st)) \<Longrightarrow> distinct (map fst (pollIntervals (pollTask k st)))"
  by (simp add: pollTask_def Let_def distinct_update)

lemma distinct_render_and_poll:
  "distinct (map fst (pollIntervals st))
     \<Longrightarrow> distinct (map fst (pollIntervals (render_and_poll ts st)))"
proof (induction ts arbitrary: st)
  case Nil
  then show ?case by simp
next
  case (Cons t ts)
  show ?case
  proof (cases "renderTask t st")
    case (Inl e)
    with Cons.prems show ?thesis
      by (simp add: alert_def)
  next
    case (Inr s)
    with Cons.prems pollIntervals_rendered [of t st]
    have "distinct (map fst (pollIntervals s))"
      by (simp add: rendered_def)
    with Cons.IH [of "pollTask (task_id t) s"] Inr show ?thesis
      by (simp add: distinct_pollTask)
  qed
qed

lemma distinct_on_response:
  "distinct (map fst (pollIntervals st))
     \<Longrightarrow> distinct (map fst (pollIntervals (on_response k iv r st)))"
proof (cases r)
  case Unauthorized
  then show "distinct (map fst (pollIntervals st)) \<Longrightarrow> ?thesis"
    by (simp add: stop_poll_fields(4) logout_fields(4) alert_def)
next
  case (Ok d)
  show "distinct (map fst (pollIntervals st)) \<Longrightarrow> ?thesis"
  proof (cases "renderTask d st")
    case (Inl e)
    with Ok show "distinct (map fst (pollIntervals st)) \<Longrightarrow> ?thesis"
      by simp
  next
    case (Inr s)
    assume "distinct (map fst (pollIntervals st))"
    with pollIntervals_rendered [of d st] Inr have "distinct (map fst (pollIntervals s))"
      by (simp add: rendered_def)
    with Ok Inr show ?thesis
      by (simp add: stop_poll_fields(4) distinct_delete)
  qed
next
  case Failure
  then show "distinct (map fst (pollIntervals st)) \<Longrightarrow> ?thesis"
    by simp
qed

lemma distinct_step:
  "distinct (map fst (pollIntervals st)) \<Longrightarrow> distinct (map fst (pollIntervals (step e st)))"
proof (cases e)
  case (Login jwt u)
  then show "distinct (map fst (pollIntervals st)) \<Longrightarrow> ?thesis"
    by (simp add: logged_in_def)
next
  case (Submitted s)
  have "pollIntervals (registerBatch ts st) = pollIntervals st" for ts
    by (simp add: registerBatch_def Let_def split: list.splits)
  with Submitted show "distinct (map fst (pollIntervals st)) \<Longrightarrow> ?thesis"
    by (cases s) (simp_all add: distinct_render_and_poll del: render_and_poll.simps)
next
  case (Tick iv)
  then show "distinct (map fst (pollIntervals st)) \<Longrightarrow> ?thesis"
    by (simp add: tick_def stop_poll_fields(4) distinct_delete split: option.splits)
next
  case (Respond i r)
  then show "distinct (map fst (pollIntervals st)) \<Longrightarrow> ?thesis"
    by (simp add: respond_def distinct_on_response split: prod.splits)
next
  case Logout
  then show "distinct (map fst (pollIntervals st)) \<Longrightarrow> ?thesis"
    by (simp add: logout_fields(4))
qed

text \<open>In every state the page reaches, \<open>pollIntervals\<close> has one entry for a key at most.\<close>

lemma pollIntervals_distinct_run: "distinct (map fst (pollIntervals (run es init)))"
proof -
  have "distinct (map fst (pollIntervals st))
          \<Longrightarrow> distinct (map fst (pollIntervals (fold step es st)))" for st
    by (induction es arbitrary: st) (simp_all add: distinct_step)
  moreover have "distinct (map fst (pollIntervals init))"
    by (simp add: init_def)
  ultimately show ?thesis
    by (simp add: run_def)
qed


section \<open>Subscribing twice\<close>

lemma update_new: "map_of ps k = None \<Longrightarrow> AList.update k v ps = ps @ [(k, v)]"
  by (induction ps) (auto split: if_splits)

lemma entries_distinct:
  "distinct (map fst ps)
     \<Longrightarrow> length (filter (\<lambda>(k', v). k' = k) ps) = (if map_of ps k = None then 0 else 1)"
proof (induction ps)
  case Nil
  show ?case by simp
next
  case (Cons p ps)
  obtain k' v where p: "p = (k', v)" by (cases p)
  from Cons.prems have "k' \<notin> fst ` set ps" by (simp add: p)
  then have "map_of ps k' = None" by (simp add: map_of_eq_None_iff)
  with Cons show ?case by (auto simp: p)
qed

lemma pollTask_subscribed:
  "map_of (pollIntervals st) taskId \<noteq> None \<Longrightarrow> pollTask taskId st = st"
  by (simp add: pollTask_def)

lemma pollTask_new:
  assumes "map_of (pollIntervals st) taskId = None"
  shows "pollIntervals (pollTask taskId st) = pollIntervals st @ [(taskId, next_timer st)]"
    and "timers (pollTask taskId st) = timers st @ [(next_timer st, taskId)]"
  using assms by (simp_all add: pollTask_def Let_def update_new)

text \<open>
  C8, as the code has it. A second call of \<open>pollTask\<close> for a task changes nothing, in any
  state. \<open>pollIntervals\<close>, a Map, has one entry for a key at most, before and after, and
  in every state the page reaches; after the calls it has one entry for the task. One
  interval polls the task after the calls where the running intervals for it were those of
  the Map before; an interval that runs without an entry keeps running beside the new one.
\<close>

theorem pollTask_twice:
  "pollTask taskId (pollTask taskId st) = pollTask taskId st
   \<and> (distinct (map fst (pollIntervals st))
        \<longrightarrow> distinct (map fst (pollIntervals (pollTask taskId st)))
            \<and> entries taskId (pollTask taskId (pollTask taskId st)) = 1
            \<and> (active_checks taskId st = entries taskId st
                 \<longrightarrow> active_checks taskId (pollTask taskId (pollTask taskId st)) = 1))
   \<and> distinct (map fst (pollIntervals (run es init)))"
proof (cases "map_of (pollIntervals st) taskId = None")
  case False
  then have same: "pollTask taskId st = st" by (simp add: pollTask_subscribed)
  have "entries taskId st = 1" if "distinct (map fst (pollIntervals st))"
    using that False entries_distinct [of "pollIntervals st" taskId]
    by (simp add: entries_def)
  then show ?thesis
    by (simp add: same pollIntervals_distinct_run)
next
  case True
  have sub: "map_of (pollIntervals (pollTask taskId st)) taskId \<noteq> None"
    by (simp add: pollTask_new(1) [OF True] map_of_append)
  then have idem: "pollTask taskId (pollTask taskId st) = pollTask taskId st"
    by (rule pollTask_subscribed)
  have fresh: "taskId \<notin> fst ` set (pollIntervals st)"
    using True by (simp add: map_of_eq_None_iff)
  have "distinct (map fst (pollIntervals (pollTask taskId st)))"
    if "distinct (map fst (pollIntervals st))"
    using that fresh by (simp add: pollTask_new(1) [OF True])
  moreover have "entries taskId (pollTask taskId st) = 1"
    if "distinct (map fst (pollIntervals st))"
    using that True entries_distinct [of "pollIntervals st" taskId]
    by (simp add: entries_def pollTask_new(1) [OF True])
  moreover have "active_checks taskId (pollTask taskId st) = 1"
    if "distinct (map fst (pollIntervals st))" and "active_checks taskId st = entries taskId st"
    using that True entries_distinct [of "pollIntervals st" taskId]
    by (simp add: entries_def active_checks_def pollTask_new(2) [OF True])
  ultimately show ?thesis
    by (simp add: idem pollIntervals_distinct_run)
qed

theorem pollTask_twice_witness:
  "distinct (map fst (pollIntervals polling_de))
   \<and> active_checks ''G'' polling_de = entries ''G'' polling_de
   \<and> pollTask ''G'' (pollTask ''G'' polling_de) = pollTask ''G'' polling_de
   \<and> entries ''G'' (pollTask ''G'' (pollTask ''G'' polling_de)) = 1
   \<and> active_checks ''G'' (pollTask ''G'' (pollTask ''G'' polling_de)) = 1
   \<and> active_checks ''D'' polling_de = entries ''D'' polling_de
   \<and> active_checks ''D'' (pollTask ''D'' (pollTask ''D'' polling_de)) = 1"
proof -
  have p: "pollIntervals polling_de = [(''D'', 0), (''E'', 1)]"
    and t: "timers polling_de = [(0, ''D''), (1, ''E'')]"
    by (simp_all add: polling_de_def eval_defs)
  have d: "distinct (map fst (pollIntervals polling_de))"
    by (simp add: p)
  have g: "active_checks ''G'' polling_de = entries ''G'' polling_de"
    by (simp add: p t entries_def active_checks_def)
  have e: "active_checks ''D'' polling_de = entries ''D'' polling_de"
    by (simp add: p t entries_def active_checks_def)
  from pollTask_twice [of "''G''" polling_de] d g
  have "pollTask ''G'' (pollTask ''G'' polling_de) = pollTask ''G'' polling_de
        \<and> entries ''G'' (pollTask ''G'' (pollTask ''G'' polling_de)) = 1
        \<and> active_checks ''G'' (pollTask ''G'' (pollTask ''G'' polling_de)) = 1"
    by blast
  moreover from pollTask_twice [of "''D''" polling_de] d e
  have "active_checks ''D'' (pollTask ''D'' (pollTask ''D'' polling_de)) = 1"
    by blast
  ultimately show ?thesis
    using d g e by blast
qed

text \<open>
  C8 as stated fails: the late answer of the first subscription of \<open>F\<close> has deleted the
  entry of the second from \<open>pollIntervals\<close> and left its interval running. Two calls of
  \<open>pollTask\<close> for \<open>F\<close> follow with nothing in between: two intervals poll \<open>F\<close>.
\<close>

theorem orphaned_interval_polls_twice:
  "pollIntervals orphaned = [] \<and> timers orphaned = [(1, ''F'')]
   \<and> timers (pollTask ''F'' (pollTask ''F'' orphaned)) = [(1, ''F''), (2, ''F'')]
   \<and> active_checks ''F'' (pollTask ''F'' (pollTask ''F'' orphaned)) = 2"
  by (simp add: orphaned_def active_checks_def eval_defs)

section \<open>The download button of a batch\<close>

text \<open>
  C1, as the code has it. In any state the page has reached, a batch is registered by
  \<open>registerBatch\<close> and job records are rendered in any order, the records counted for the
  batch (completed, carrying its identifier, rendered without error) being records of its
  members. The download button of the batch is put into its container by exactly one
  rendering when every member has been counted, by none otherwise; it is the rendering of
  the record that makes the set of completed members equal to the member set, that is, of
  the last distinct member to complete. No rendering before it and none after it, a
  repeated record included, adds a button.
\<close>

theorem batch_download_offered_once:
  assumes "batch_id t0 = Some b" and "b \<noteq> []"
    and "\<forall>t\<in>set ts. counted b t \<longrightarrow> task_id t |\<in>| fset_of_list (map task_id (t0 # rest))"
  shows "count_list (offers b ts (registerBatch (t0 # rest) (run es init))) True
           = (if done_ids b ts = fset_of_list (map task_id (t0 # rest)) then 1 else 0)
         \<and> (\<forall>i<length ts. offers b ts (registerBatch (t0 # rest) (run es init)) ! i
               = (done_ids b (take (Suc i) ts) = fset_of_list (map task_id (t0 # rest))
                  \<and> done_ids b (take i ts) \<noteq> fset_of_list (map task_id (t0 # rest))))"
  using boxes_fresh_run assms by (rule offered_once_fresh)

theorem batch_download_offered_once_witness:
  "done_ids ''b1'' arrivals |\<subseteq>| fset_of_list (map task_id abc)
   \<and> count_list (offers ''b1'' arrivals (registerBatch abc (run [Login ''jwt'' ''u''] init))) True = 1
   \<and> offers ''b1'' arrivals (registerBatch abc (run [Login ''jwt'' ''u''] init)) ! 4"
proof -
  let ?M = "fset_of_list (map task_id abc)"
  let ?st = "registerBatch abc (run [Login ''jwt'' ''u''] init)"
  have mem: "\<forall>t\<in>set arrivals. counted ''b1'' t \<longrightarrow> task_id t |\<in>| ?M"
    by (simp add: arrivals_def abc_def job_def counted_def tracks_def)
  have all: "done_ids ''b1'' arrivals = ?M"
    by (auto simp: arrivals_def abc_def job_def counted_def tracks_def done_ids_def)
  have last: "done_ids ''b1'' (take (Suc 4) arrivals) = ?M"
    by (auto simp: arrivals_def abc_def job_def counted_def tracks_def done_ids_def)
  have "''B'' |\<notin>| done_ids ''b1'' (take 4 arrivals)"
    by (simp add: arrivals_def job_def counted_def tracks_def done_ids_def)
  moreover have "''B'' |\<in>| ?M"
    by (simp add: abc_def job_def)
  ultimately have before: "done_ids ''b1'' (take 4 arrivals) \<noteq> ?M"
    by metis
  have len: "4 < length arrivals"
    by (simp add: arrivals_def)
  have split: "abc = job ''A'' (Some ''b1'') ''queued''
                 # [job ''B'' (Some ''b1'') ''queued'', job ''C'' (Some ''b1'') ''queued'']"
    by (simp add: abc_def)
  have "count_list (offers ''b1'' arrivals ?st) True
          = (if done_ids ''b1'' arrivals = ?M then 1 else 0)
        \<and> (\<forall>i<length arrivals. offers ''b1'' arrivals ?st ! i
              = (done_ids ''b1'' (take (Suc i) arrivals) = ?M
                 \<and> done_ids ''b1'' (take i arrivals) \<noteq> ?M))"
    unfolding split
  proof (rule batch_download_offered_once)
    show "batch_id (job ''A'' (Some ''b1'') ''queued'') = Some ''b1''" by (simp add: job_def)
    show "''b1'' \<noteq> []" by simp
    show "\<forall>t\<in>set arrivals. counted ''b1'' t \<longrightarrow> task_id t |\<in>|
            fset_of_list (map task_id (job ''A'' (Some ''b1'') ''queued''
                 # [job ''B'' (Some ''b1'') ''queued'', job ''C'' (Some ''b1'') ''queued'']))"
      using mem unfolding split .
  qed
  then have cnt: "count_list (offers ''b1'' arrivals ?st) True
          = (if done_ids ''b1'' arrivals = ?M then 1 else 0)"
    and nth: "\<forall>i<length arrivals. offers ''b1'' arrivals ?st ! i
              = (done_ids ''b1'' (take (Suc i) arrivals) = ?M
                 \<and> done_ids ''b1'' (take i arrivals) \<noteq> ?M)"
    by blast+
  from cnt all have one: "count_list (offers ''b1'' arrivals ?st) True = 1"
    by (simp only: if_True refl)
  from nth len have "offers ''b1'' arrivals ?st ! 4
              = (done_ids ''b1'' (take (Suc 4) arrivals) = ?M
                 \<and> done_ids ''b1'' (take 4 arrivals) \<noteq> ?M)"
    by blast
  with last before have "offers ''b1'' arrivals ?st ! 4"
    by blast
  with all one show ?thesis by simp
qed

text \<open>
  C1 as stated fails: the batch \<open>b3\<close> has the one member \<open>A\<close>. A completed record that
  carries \<open>b3\<close> arrives for a task \<open>X\<close> that is not a member, then the completed record of
  \<open>A\<close>. The download button is put into the container by the rendering of the record of
  \<open>X\<close>, and the rendering of the record of \<open>A\<close>, the last and only member to complete, adds
  none.
\<close>

theorem button_offered_by_non_member:
  "members_of ''b3'' only_a = {|''A''|}
   \<and> offers ''b3'' [job ''X'' (Some ''b3'') ''completed'', job ''A'' (Some ''b3'') ''completed'']
        only_a = [True, False]"
  by (simp add: only_a_def members_of_def buttons_def job_def init_def registerBatch_def
      render_defs)

end
